theory Spec2Isabelle
  imports Complex_Main "HOL-Library.Char_ord" "HOL-Library.List_Lexorder"
    "HOL-Library.Product_Lexorder"
begin

section \<open>Text primitives shared by the extract and analyze stages\<close>

text \<open>
  A Python \<open>str\<close> is a sequence of code points. The model uses \<open>string\<close>, whose
  characters are the code points 0 to 255, and gives the character classes the values
  Python has on that range: \<open>\w\<close> (alphanumeric or underscore), \<open>\s\<close> and
  \<open>str.strip\<close> (the same set of white space), and \<open>str.lower\<close> (one character to
  one character on this range).
\<close>

definition is_word_char :: "char \<Rightarrow> bool" where
  "is_word_char c =
     (let n = (of_char c :: nat) in
        (48 \<le> n \<and> n \<le> 57) \<or> (65 \<le> n \<and> n \<le> 90) \<or> n = 95 \<or> (97 \<le> n \<and> n \<le> 122) \<or>
        n = 170 \<or> n = 178 \<or> n = 179 \<or> n = 181 \<or> n = 185 \<or> n = 186 \<or>
        (188 \<le> n \<and> n \<le> 190) \<or> (192 \<le> n \<and> n \<le> 214) \<or> (216 \<le> n \<and> n \<le> 246) \<or>
        (248 \<le> n \<and> n \<le> 255))"

definition is_space_char :: "char \<Rightarrow> bool" where
  "is_space_char c =
     (let n = (of_char c :: nat) in
        (9 \<le> n \<and> n \<le> 13) \<or> (28 \<le> n \<and> n \<le> 32) \<or> n = 133 \<or> n = 160)"

definition lower_char :: "char \<Rightarrow> char" where
  "lower_char c =
     (let n = (of_char c :: nat) in
        if (65 \<le> n \<and> n \<le> 90) \<or> (192 \<le> n \<and> n \<le> 214) \<or> (216 \<le> n \<and> n \<le> 222)
        then char_of (n + 32) else c)"

text \<open>\<open>str.lower\<close>\<close>

definition lower :: "string \<Rightarrow> string" where
  "lower s = map lower_char s"

text \<open>\<open>str.strip\<close> with no argument\<close>

definition strip :: "string \<Rightarrow> string" where
  "strip s = rev (dropWhile is_space_char (rev (dropWhile is_space_char s)))"

text \<open>\<open>WORD_RE.findall\<close>, with \<open>WORD_RE = \w+\<close>: the maximal runs of word characters.\<close>

function findall_words :: "string \<Rightarrow> string list" where
  "findall_words [] = []"
| "findall_words (c # cs) =
     (if is_word_char c
      then takeWhile is_word_char (c # cs) # findall_words (dropWhile is_word_char cs)
      else findall_words cs)"
  by pat_completeness auto
termination
  by (relation "measure length") (auto simp: length_dropWhile_le less_Suc_eq_le)

definition tokenize_words_lower :: "string \<Rightarrow> string list" where
  "tokenize_words_lower text = findall_words (lower text)"

definition is_sent_char :: "char \<Rightarrow> bool" where
  "is_sent_char c = (c = CHR ''.'' \<or> c = CHR ''!'' \<or> c = CHR ''?'')"

text \<open>
  \<open>SENT_SPLIT_RE.split\<close>, with \<open>SENT_SPLIT_RE = [.!?]+\<close>: the pieces between the
  maximal runs of sentence punctuation, the empty pieces at both ends included.
\<close>

function sent_split :: "string \<Rightarrow> string list" where
  "sent_split s =
     (case dropWhile (\<lambda>c. \<not> is_sent_char c) s of
        [] \<Rightarrow> [s]
      | _ # _ \<Rightarrow> takeWhile (\<lambda>c. \<not> is_sent_char c) s #
                 sent_split (dropWhile is_sent_char (dropWhile (\<lambda>c. \<not> is_sent_char c) s)))"
  by pat_completeness auto
termination
proof (relation "measure length", goal_cases)
  case 1
  show ?case by simp
next
  case (2 s x xs)
  have "is_sent_char x"
    using 2 hd_dropWhile [of "\<lambda>c. \<not> is_sent_char c" s] by auto
  then have "length (dropWhile is_sent_char (x # xs)) \<le> length xs"
    by (simp add: length_dropWhile_le)
  moreover have "length (x # xs) \<le> length s"
    using 2 length_dropWhile_le [of "\<lambda>c. \<not> is_sent_char c" s] by simp
  ultimately show ?case using 2 by simp
qed

declare sent_split.simps [simp del]

definition split_sentences :: "string \<Rightarrow> string list" where
  "split_sentences text = filter (\<lambda>s. s \<noteq> []) (map strip (sent_split text))"

text \<open>
  \<open>increment_count\<close> on a \<open>dict\<close>: the dictionary is its list of items in insertion
  order, which is the order Python iterates in; an update keeps the key's position.
\<close>

fun increment_count :: "('k \<times> nat) list \<Rightarrow> 'k \<Rightarrow> ('k \<times> nat) list" where
  "increment_count [] key = [(key, 1)]"
| "increment_count ((k, v) # d) key =
     (if k = key then (k, v + 1) # d else (k, v) # increment_count d key)"

text \<open>\<open>" ".join\<close>\<close>

fun join_space :: "string list \<Rightarrow> string" where
  "join_space [] = []"
| "join_space [w] = w"
| "join_space (w # ws) = w @ '' '' @ join_space ws"

function build_ngrams_from :: "string list \<Rightarrow> nat \<Rightarrow> nat \<Rightarrow> string list" where
  "build_ngrams_from words n i =
     (if i + n \<le> length words
      then join_space (take n (drop i words)) # build_ngrams_from words n (i + 1)
      else [])"
  by pat_completeness auto
termination
  by (relation "measure (\<lambda>(words, n, i). Suc (length words) - (i + n))") auto

declare build_ngrams_from.simps [simp del]

definition build_ngrams :: "string list \<Rightarrow> nat \<Rightarrow> string list" where
  "build_ngrams words n = build_ngrams_from words n 0"

text \<open>
  \<open>jaccard_similarity\<close>. The source divides two \<open>float\<close>s that hold the two set sizes;
  the model keeps the exact quotient.
\<close>

definition jaccard_similarity :: "string list \<Rightarrow> string list \<Rightarrow> rat" where
  "jaccard_similarity doc1_words doc2_words =
     (let set1 = set doc1_words;
          set2 = set doc2_words;
          intersection = set1 \<inter> set2;
          union = set1 \<union> set2
      in if card union > 0 then of_nat (card intersection) / of_nat (card union) else 0)"

definition avg_word_length :: "string list \<Rightarrow> rat" where
  "avg_word_length words =
     (if length words = 0 then 0
      else of_nat (sum_list (map length words)) / of_nat (length words))"


text \<open>\<open>str.endswith\<close>\<close>

definition endswith :: "string \<Rightarrow> string \<Rightarrow> bool" where
  "endswith s p = (length p \<le> length s \<and> drop (length s - length p) s = p)"

text \<open>
  The polling loop of every stage, \<open>while not os.path.exists(marker): sleep\<close>. The
  first argument says whether the marker exists at the k-th look; the loop returns at the
  first look that finds it, and never when no look does.
\<close>

partial_function (option) wait_for :: "(nat \<Rightarrow> bool) \<Rightarrow> nat \<Rightarrow> nat option" where
  "wait_for present k = (if present k then Some k else wait_for present (Suc k))"

section \<open>The analyze stage (q3/analyzer/analyze.py)\<close>

text \<open>
  A value returned by \<open>json.load\<close>. An object is the list of the items of the parsed
  \<open>dict\<close>, whose keys are distinct.
\<close>

datatype json =
    JNull
  | JBool bool
  | JNum rat
  | JStr string
  | JArr "json list"
  | JObj "(string \<times> json) list"

text \<open>An exception that no \<open>except\<close> clause of the stage catches.\<close>

datatype uncaught = AttributeError

record doc =
  doc_file :: string
  doc_words :: "string list"

text \<open>The variables the main loop of the stage updates, under their names in the source.\<close>

record corpus =
  docs :: "doc list"
  global_freq :: "(string \<times> nat) list"
  total_words :: nat
  total_sentence_count :: nat
  total_sentence_words :: nat
  all_words_for_readability :: "string list"
  bigram_freq :: "(string \<times> nat) list"
  trigram_freq :: "(string \<times> nat) list"

definition empty_corpus :: corpus where
  "empty_corpus =
     \<lparr>docs = [], global_freq = [], total_words = 0, total_sentence_count = 0,
      total_sentence_words = 0, all_words_for_readability = [], bigram_freq = [],
      trigram_freq = []\<rparr>"

text \<open>The loop body after the \<open>try\<close> block (lines 148 to 181), for a file whose text was read.\<close>

definition add_document :: "string \<Rightarrow> string \<Rightarrow> corpus \<Rightarrow> corpus" where
  "add_document fname text a =
     (let words = tokenize_words_lower text;
          sents = split_sentences text;
          bigrams = build_ngrams words 2;
          trigrams = build_ngrams words 3
      in \<lparr>docs = docs a @ [\<lparr>doc_file = fname, doc_words = words\<rparr>],
          global_freq = foldl increment_count (global_freq a) words,
          total_words = total_words a + length words,
          total_sentence_count = total_sentence_count a + length sents,
          total_sentence_words =
            total_sentence_words a + sum_list (map (\<lambda>s. length (tokenize_words_lower s)) sents),
          all_words_for_readability = all_words_for_readability a @ words,
          bigram_freq = foldl increment_count (bigram_freq a) bigrams,
          trigram_freq = foldl increment_count (trigram_freq a) trigrams\<rparr>)"

definition PROCESSED_DIR :: string where
  "PROCESSED_DIR = ''/shared/processed''"

text \<open>
  The \<open>try\<close> block (lines 140 to 146): \<open>read_json\<close> raises (\<open>Inl\<close>) or returns the parsed
  value; \<open>obj.get("text", "")\<close> raises unless \<open>obj\<close> is a \<open>dict\<close>. Either exception is
  caught and the file is skipped, giving \<open>None\<close>.
\<close>

definition try_read_text :: "(string \<Rightarrow> string + json) \<Rightarrow> string \<Rightarrow> json option" where
  "try_read_text read_json path =
     (case read_json path of
        Inl e \<Rightarrow> None
      | Inr (JObj items) \<Rightarrow>
          (case map_of items ''text'' of None \<Rightarrow> Some (JStr []) | Some v \<Rightarrow> Some v)
      | Inr _ \<Rightarrow> None)"

text \<open>
  The main loop (lines 137 to 183). \<open>tokenize_words_lower\<close> calls \<open>text.lower()\<close>
  outside the \<open>try\<close> block: a \<open>text\<close> that is not a \<open>str\<close> ends the stage.
\<close>

fun analyze_files ::
  "(string \<Rightarrow> string + json) \<Rightarrow> string list \<Rightarrow> corpus \<Rightarrow> uncaught + corpus" where
  "analyze_files read_json [] a = Inr a"
| "analyze_files read_json (f # files) a =
     (case try_read_text read_json (PROCESSED_DIR @ ''/'' @ f) of
        None \<Rightarrow> analyze_files read_json files a
      | Some (JStr text) \<Rightarrow> analyze_files read_json files (add_document f text a)
      | Some _ \<Rightarrow> Inl AttributeError)"

record word_entry =
  word :: string
  count :: nat
  frequency :: rat

record similarity_entry =
  doc1 :: string
  doc2 :: string
  similarity :: rat

record bigram_entry =
  bigram :: string
  bigram_count :: nat

record trigram_entry =
  trigram :: string
  trigram_count :: nat

record readability =
  avg_sentence_length :: rat
  readability_avg_word_length :: rat
  complexity_score :: rat

record report =
  processing_timestamp :: string
  documents_processed :: nat
  report_total_words :: nat
  report_unique_words :: nat
  top_100_words :: "word_entry list"
  document_similarity :: "similarity_entry list"
  top_bigrams :: "bigram_entry list"
  top_trigrams :: "trigram_entry list"
  report_readability :: readability
  report_error :: "string option"

text \<open>
  The items of a frequency \<open>dict\<close> in the order of
  \<open>items.sort(key=lambda x: (-x[1], x[0]))\<close> (lines 187 to 190, 219 to 227).
\<close>

definition sort_items :: "(string \<times> nat) list \<Rightarrow> (string \<times> nat) list" where
  "sort_items items = sort_key (\<lambda>x. (- int (snd x), fst x)) items"

text \<open>The two nested loops over \<open>i < j\<close> (lines 205 to 217).\<close>

fun sim_pairs :: "doc list \<Rightarrow> similarity_entry list" where
  "sim_pairs [] = []"
| "sim_pairs (d # ds) =
     map (\<lambda>e. \<lparr>doc1 = doc_file d, doc2 = doc_file e,
               similarity = jaccard_similarity (doc_words d) (doc_words e)\<rparr>) ds
     @ sim_pairs ds"

text \<open>
  Lines 185 to 263: the report built from the loop's variables. The quotients are
  \<open>float\<close> divisions in the source and exact here.
\<close>

definition build_report :: "string \<Rightarrow> corpus \<Rightarrow> report" where
  "build_report now a =
     (let avg_sl = (if total_sentence_count a > 0
                    then of_nat (total_sentence_words a) / of_nat (total_sentence_count a)
                    else 0);
          avg_wlen = avg_word_length (all_words_for_readability a)
      in \<lparr>processing_timestamp = now,
          documents_processed = length (docs a),
          report_total_words = total_words a,
          report_unique_words = length (global_freq a),
          top_100_words =
            map (\<lambda>(w, c). \<lparr>word = w, count = c,
                   frequency = (if total_words a > 0 then of_nat c / of_nat (total_words a)
                                else 0)\<rparr>)
              (take 100 (sort_items (global_freq a))),
          document_similarity = sim_pairs (docs a),
          top_bigrams =
            map (\<lambda>(g, c). \<lparr>bigram = g, bigram_count = c\<rparr>) (take 50 (sort_items (bigram_freq a))),
          top_trigrams =
            map (\<lambda>(g, c). \<lparr>trigram = g, trigram_count = c\<rparr>)
              (take 50 (sort_items (trigram_freq a))),
          report_readability =
            \<lparr>avg_sentence_length = avg_sl, readability_avg_word_length = avg_wlen,
             complexity_score = avg_sl * avg_wlen\<rparr>,
          report_error = None\<rparr>)"

text \<open>The report of lines 99 to 117, written when the directory of documents is missing.\<close>

definition missing_dir_report :: "string \<Rightarrow> report" where
  "missing_dir_report now =
     \<lparr>processing_timestamp = now, documents_processed = 0, report_total_words = 0,
      report_unique_words = 0, top_100_words = [], document_similarity = [],
      top_bigrams = [], top_trigrams = [],
      report_readability =
        \<lparr>avg_sentence_length = 0, readability_avg_word_length = 0, complexity_score = 0\<rparr>,
      report_error = Some (''Missing processed dir '' @ PROCESSED_DIR)\<rparr>"

text \<open>
  What the stage finds around it: whether the marker of the extract stage exists at
  each look, the names in the directory of documents (\<open>None\<close> when the directory is
  missing), what \<open>read_json\<close> does on each path, and the clock.
\<close>

record analyze_env =
  process_done :: "nat \<Rightarrow> bool"
  processed_dir :: "string list option"
  read_json :: "string \<Rightarrow> string + json"
  analyze_now :: string

text \<open>Lines 119 to 123: the names ending in \<open>.json\<close>, sorted.\<close>

definition json_files :: "string list \<Rightarrow> string list" where
  "json_files names = sort (filter (\<lambda>name. endswith (lower name) ''.json'') names)"

text \<open>
  \<open>main\<close> from line 97 on: the exit code and the report handed to \<open>write_json\<close>, or
  the exception that ends the stage before any report is written.
\<close>

definition analyze_batch :: "analyze_env \<Rightarrow> uncaught + (nat \<times> report)" where
  "analyze_batch env =
     (case processed_dir env of
        None \<Rightarrow> Inr (1, missing_dir_report (analyze_now env))
      | Some names \<Rightarrow>
          (case analyze_files (read_json env) (json_files names) empty_corpus of
             Inl u \<Rightarrow> Inl u
           | Inr a \<Rightarrow> Inr (0, build_report (analyze_now env) a)))"

text \<open>\<open>main\<close>: \<open>None\<close> when the stage waits for ever.\<close>

definition analyze_main :: "analyze_env \<Rightarrow> (uncaught + (nat \<times> report)) option" where
  "analyze_main env =
     (case wait_for (process_done env) 0 of
        None \<Rightarrow> None
      | Some k \<Rightarrow> Some (analyze_batch env))"


section \<open>The extract stage (q3/processor/process.py)\<close>

text \<open>\<open>s.find(p)\<close>: the least index where \<open>p\<close> occurs in \<open>s\<close>; \<open>None\<close> for \<open>-1\<close>.\<close>

fun find_str :: "string \<Rightarrow> string \<Rightarrow> nat option" where
  "find_str [] p = (if p = [] then Some 0 else None)"
| "find_str (c # cs) p =
     (if take (length p) (c # cs) = p then Some 0 else map_option Suc (find_str cs p))"

text \<open>\<open>s.find(p, start)\<close>\<close>

definition find_from :: "string \<Rightarrow> string \<Rightarrow> nat \<Rightarrow> nat option" where
  "find_from s p start =
     (if start \<le> length s then map_option (\<lambda>k. start + k) (find_str (drop start s) p)
      else None)"

definition open_pat :: "string \<Rightarrow> string" where
  "open_pat tag_name = ''<'' @ tag_name"

definition close_pat :: "string \<Rightarrow> string" where
  "close_pat tag_name = ''</'' @ tag_name @ ''>''"

function remove_tag_block :: "string \<Rightarrow> string \<Rightarrow> string" where
  "remove_tag_block html tag_name =
     (case find_str (lower html) (open_pat tag_name) of
        None \<Rightarrow> html
      | Some start \<Rightarrow>
          (case find_from (lower html) (close_pat tag_name) start of
             None \<Rightarrow> take start html
           | Some e \<Rightarrow>
               remove_tag_block
                 (take start html @ '' '' @ drop (e + length (close_pat tag_name)) html)
                 tag_name))"
  by pat_completeness auto
termination
proof (relation "measure (\<lambda>(html, tag_name). length html)", goal_cases)
  case 1
  show ?case by simp
next
  case (2 html tag_name start e)
  have bound: "k + length p \<le> length s" if "find_str s p = Some k" for s p k
    using that
  proof (induction s arbitrary: k)
    case Nil
    then show ?case by (simp split: if_splits)
  next
    case (Cons c cs)
    show ?case
    proof (cases "take (length p) (c # cs) = p")
      case True
      then have "length (take (length p) (c # cs)) = length p"
        by simp
      then have "length p \<le> length (c # cs)"
        by (simp del: take_Suc_Cons)
      with True Cons.prems show ?thesis by simp
    next
      case False
      with Cons.prems obtain j where "find_str cs p = Some j" and "k = Suc j"
        by auto
      with Cons.IH [of j] show ?thesis by simp
    qed
  qed
  from 2(2) obtain k where k: "find_str (drop start (lower html)) (close_pat tag_name) = Some k"
    and e: "e = start + k" and le: "start \<le> length html"
    by (auto simp: find_from_def lower_def split: if_splits)
  from bound [OF k] have "k + length (close_pat tag_name) \<le> length html - start"
    by (simp add: lower_def)
  moreover have "3 \<le> length (close_pat tag_name)"
    by (simp add: close_pat_def)
  ultimately show ?case using e le by simp
qed

declare remove_tag_block.simps [simp del]

text \<open>
  \<open>TAG_RE.sub(" ", s)\<close> with \<open>TAG_RE = <[^>]+>\<close>. A match starts at a \<open><\<close> whose next
  character is not \<open>>\<close> and that has a \<open>>\<close> further on, and ends at the first such \<open>>\<close>.
\<close>

function sub_tags :: "string \<Rightarrow> string" where
  "sub_tags [] = []"
| "sub_tags (c # cs) =
     (if c = CHR ''<'' then
        (case cs of
           [] \<Rightarrow> [c]
         | d # ds \<Rightarrow>
             if d = CHR ''>'' then c # sub_tags cs
             else (case dropWhile (\<lambda>x. x \<noteq> CHR ''>'') ds of
                     [] \<Rightarrow> c # sub_tags cs
                   | g # rest \<Rightarrow> CHR '' '' # sub_tags rest))
      else c # sub_tags cs)"
  by pat_completeness auto
termination
proof (relation "measure length", goal_cases)
  case (4 c cs d ds g rest)
  have "length (dropWhile (\<lambda>x. x \<noteq> CHR ''>'') ds) \<le> length ds"
    by (rule length_dropWhile_le)
  with 4 show ?case by simp
qed simp_all

text \<open>\<open>WS_RE.sub(" ", s)\<close> with \<open>WS_RE = \s+\<close>\<close>

function sub_ws :: "string \<Rightarrow> string" where
  "sub_ws [] = []"
| "sub_ws (c # cs) =
     (if is_space_char c then CHR '' '' # sub_ws (dropWhile is_space_char cs)
      else c # sub_ws cs)"
  by pat_completeness auto
termination
  by (relation "measure length") (auto simp: length_dropWhile_le less_Suc_eq_le)

text \<open>
  \<open>HREF_RE\<close> and \<open>SRC_RE\<close>: the attribute name in either case, \<open>=\<close>, at most one quote,
  then the longest non-empty run of characters other than the two quotes, the space and
  \<open>>\<close>. \<open>match_attr\<close> tries the pattern at the head of the string and gives the group
  and what follows the match.
\<close>

definition attr_value_char :: "char \<Rightarrow> bool" where
  "attr_value_char c = (c \<noteq> CHR 0x27 \<and> c \<noteq> CHR 0x22 \<and> c \<noteq> CHR '' '' \<and> c \<noteq> CHR ''>'')"

definition match_attr :: "string \<Rightarrow> string \<Rightarrow> (string \<times> string) option" where
  "match_attr name s =
     (if length name < length s \<and> lower (take (length name) s) = name \<and>
         s ! length name = CHR ''=''
      then
        (let r = drop (Suc (length name)) s;
             r' = (case r of
                     [] \<Rightarrow> r
                   | q # qs \<Rightarrow> if q = CHR 0x27 \<or> q = CHR 0x22 then qs else r)
         in if takeWhile attr_value_char r' = [] then None
            else Some (takeWhile attr_value_char r', dropWhile attr_value_char r'))
      else None)"

text \<open>\<open>findall\<close> of such a pattern.\<close>

function findall_attr :: "string \<Rightarrow> string \<Rightarrow> string list" where
  "findall_attr name [] = []"
| "findall_attr name (c # cs) =
     (case match_attr name (c # cs) of
        None \<Rightarrow> findall_attr name cs
      | Some (v, rest) \<Rightarrow> v # findall_attr name rest)"
  by pat_completeness auto
termination
proof (relation "measure (\<lambda>(name, s). length s)", goal_cases)
  case (3 name c cs x v rest)
  define r' where
    "r' = (case drop (length name) cs of
             [] \<Rightarrow> drop (length name) cs
           | q # qs \<Rightarrow> if q = CHR 0x27 \<or> q = CHR 0x22 then qs else drop (length name) cs)"
  from 3 have "rest = dropWhile attr_value_char r'"
    by (auto simp: match_attr_def Let_def r'_def split: if_splits)
  then have "length rest \<le> length r'"
    by (simp add: length_dropWhile_le)
  moreover have "length r' \<le> length (drop (length name) cs)"
    unfolding r'_def by (cases "drop (length name) cs") (simp_all del: length_drop)
  moreover have "length (drop (length name) cs) \<le> length cs"
    by simp
  ultimately show ?case by simp
qed simp_all

text \<open>\<open>strip_html\<close>: the text, the links and the images.\<close>

definition strip_html :: "string \<Rightarrow> string \<times> string list \<times> string list" where
  "strip_html html_content =
     (let html1 = remove_tag_block html_content ''script'';
          html2 = remove_tag_block html1 ''style'';
          links = findall_attr ''href'' html2;
          images = findall_attr ''src'' html2;
          text1 = sub_tags html2;
          text2 = strip (sub_ws text1)
      in (text2, links, images))"

text \<open>
  \<open>len(P_TAG_RE.findall(s))\<close> with \<open>P_TAG_RE = <[Pp]\b\<close>: the word boundary after the
  letter holds at the end of the string and before a character that is not a word
  character.
\<close>

fun count_p_tags :: "string \<Rightarrow> nat" where
  "count_p_tags (a # b # cs) =
     (if a = CHR ''<'' \<and> (b = CHR ''p'' \<or> b = CHR ''P'') \<and>
         (case cs of [] \<Rightarrow> True | d # ds \<Rightarrow> \<not> is_word_char d)
      then Suc (count_p_tags cs)
      else count_p_tags (b # cs))"
| "count_p_tags s = 0"

definition count_paragraphs :: "string \<Rightarrow> string \<Rightarrow> nat" where
  "count_paragraphs html_content extracted_text =
     (let p_count = count_p_tags html_content
      in if p_count > 0 then p_count
         else if strip extracted_text \<noteq> [] then 1
         else 0)"

definition sentence_count :: "string \<Rightarrow> nat" where
  "sentence_count text = length (filter (\<lambda>part. strip part \<noteq> []) (sent_split text))"


record statistics =
  stat_word_count :: nat
  stat_sentence_count :: nat
  stat_paragraph_count :: nat
  stat_avg_word_length :: rat

record document =
  source_file :: string
  doc_text :: string
  doc_statistics :: statistics
  links :: "string list"
  images :: "string list"
  processed_at :: string

record extract_result =
  result_source_file :: string
  output_file :: "string option"
  result_status :: string
  result_error :: "string option"

record extract_manifest =
  timestamp :: string
  manifest_status :: "string option"
  manifest_error :: "string option"
  files_processed :: nat
  successful :: nat
  failed :: nat
  results :: "extract_result list"

text \<open>
  What the stage finds around it: whether the marker of the fetch stage exists at each
  look; the names in the raw directory (\<open>None\<close> when the directory is missing); for
  each path, the text \<open>read_text_file\<close> returns or the message of the exception it
  raises; for each path, the message of the exception \<open>write_json\<close> raises there, if
  it raises; and the clock. A \<open>write_json\<close> that raises leaves no document.
\<close>

record process_env =
  fetch_done :: "nat \<Rightarrow> bool"
  raw_dir :: "string list option"
  read_text_file :: "string \<Rightarrow> string + string"
  write_json_error :: "string \<Rightarrow> string option"
  process_now :: string

definition RAW_DIR :: string where
  "RAW_DIR = ''/shared/raw''"

text \<open>\<open>path.split("/")[-1]\<close>\<close>

definition last_segment :: "string \<Rightarrow> string" where
  "last_segment path = rev (takeWhile (\<lambda>c. c \<noteq> CHR ''/'') (rev path))"

text \<open>\<open>fname.rsplit(".", 1)[0]\<close>, for a name that contains a dot.\<close>

definition rsplit_dot_head :: "string \<Rightarrow> string" where
  "rsplit_dot_head fname = rev (tl (dropWhile (\<lambda>c. c \<noteq> CHR ''.'') (rev fname)))"

definition process_one_file :: "process_env \<Rightarrow> string \<Rightarrow> string + document" where
  "process_one_file env html_path =
     (case read_text_file env html_path of
        Inl e \<Rightarrow> Inl e
      | Inr html \<Rightarrow>
          (case strip_html html of
             (text, lnks, imgs) \<Rightarrow>
               (let words = findall_words text
                in Inr \<lparr>source_file = last_segment html_path,
                        doc_text = text,
                        doc_statistics =
                          \<lparr>stat_word_count = length words,
                           stat_sentence_count = sentence_count text,
                           stat_paragraph_count = count_paragraphs html text,
                           stat_avg_word_length = avg_word_length words\<rparr>,
                        links = lnks,
                        images = imgs,
                        processed_at = process_now env\<rparr>)))"

text \<open>
  The variables of the loop over the raw files, and the documents \<open>write_json\<close> has
  written, each with its path, in the order of the writes.
\<close>

record process_state =
  loop_results :: "extract_result list"
  ok :: nat
  bad :: nat
  written :: "(string \<times> document) list"

definition out_path_of :: "string \<Rightarrow> string" where
  "out_path_of fname =
     PROCESSED_DIR @ ''/'' @
       (if CHR ''.'' \<in> set fname then rsplit_dot_head fname else fname) @ ''.json''"

definition failed_result :: "string \<Rightarrow> string \<Rightarrow> extract_result" where
  "failed_result fname e =
     \<lparr>result_source_file = fname, output_file = None, result_status = ''failed'',
      result_error = Some e\<rparr>"

text \<open>Lines 188 to 217: one raw file, with the \<open>try\<close> block and its handler.\<close>

definition process_step :: "process_env \<Rightarrow> string \<Rightarrow> process_state \<Rightarrow> process_state" where
  "process_step env fname st =
     (let in_path = RAW_DIR @ ''/'' @ fname;
          out_path = out_path_of fname
      in case process_one_file env in_path of
           Inl e \<Rightarrow>
             st\<lparr>loop_results := loop_results st @ [failed_result fname e], bad := bad st + 1\<rparr>
         | Inr obj \<Rightarrow>
             (case write_json_error env out_path of
                Some e \<Rightarrow>
                  st\<lparr>loop_results := loop_results st @ [failed_result fname e],
                     bad := bad st + 1\<rparr>
              | None \<Rightarrow>
                  st\<lparr>written := written st @ [(out_path, obj)],
                     loop_results := loop_results st @
                       [\<lparr>result_source_file = fname,
                         output_file = Some (last_segment out_path),
                         result_status = ''success'', result_error = None\<rparr>],
                     ok := ok st + 1\<rparr>))"

fun process_files :: "process_env \<Rightarrow> string list \<Rightarrow> process_state \<Rightarrow> process_state" where
  "process_files env [] st = st"
| "process_files env (fname # raw_files) st =
     process_files env raw_files (process_step env fname st)"

text \<open>Lines 170 to 180: the names ending in \<open>.html\<close>, sorted.\<close>

definition html_files :: "string list \<Rightarrow> string list" where
  "html_files names = sort (filter (\<lambda>name. endswith (lower name) ''.html'') names)"

text \<open>
  \<open>main\<close> from line 152 on: the exit code, the manifest handed to \<open>write_json\<close> and the
  documents written.
\<close>

definition process_batch ::
  "process_env \<Rightarrow> nat \<times> extract_manifest \<times> (string \<times> document) list" where
  "process_batch env =
     (case raw_dir env of
        None \<Rightarrow>
          (1,
           \<lparr>timestamp = process_now env, manifest_status = Some ''failed'',
            manifest_error = Some (''Missing raw dir '' @ RAW_DIR), files_processed = 0,
            successful = 0, failed = 0, results = []\<rparr>,
           [])
      | Some names \<Rightarrow>
          (let raw_files = html_files names;
               st = process_files env raw_files
                      \<lparr>loop_results = [], ok = 0, bad = 0, written = []\<rparr>
           in (0,
               \<lparr>timestamp = process_now env, manifest_status = None, manifest_error = None,
                files_processed = length raw_files, successful = ok st, failed = bad st,
                results = loop_results st\<rparr>,
               written st)))"

definition process_main ::
  "process_env \<Rightarrow> (nat \<times> extract_manifest \<times> (string \<times> document) list) option" where
  "process_main env =
     (case wait_for (fetch_done env) 0 of
        None \<Rightarrow> None
      | Some k \<Rightarrow> Some (process_batch env))"

section \<open>The fetch stage (q3/fetcher/fetch.py)\<close>

record fetch_result =
  url :: string
  result_file :: "string option"
  result_size :: "nat option"
  fetch_error :: "string option"
  fetch_status :: string

record fetch_manifest =
  fetch_timestamp :: string
  urls_processed :: nat
  fetch_successful :: nat
  fetch_failed :: nat
  fetch_results :: "fetch_result list"

text \<open>
  What the stage finds around it: whether the input file exists at each look; its
  lines; for the request at each index, the body read or the message of the exception
  raised; for each path, the message of the exception raised by writing the body there,
  if one is raised; and the clock.
\<close>

record fetch_env =
  input_present :: "nat \<Rightarrow> bool"
  input_lines :: "string list"
  urlopen_read :: "nat \<Rightarrow> string \<Rightarrow> string + string"
  write_raw_error :: "string \<Rightarrow> string option"
  fetch_now :: string

text \<open>\<open>str\<close> of a natural number\<close>

fun str_nat :: "nat \<Rightarrow> string" where
  "str_nat n =
     (if n < 10 then [char_of (48 + n)]
      else str_nat (n div 10) @ [char_of (48 + n mod 10)])"

declare str_nat.simps [simp del]

text \<open>Lines 24 to 29: the stripped lines that are not empty.\<close>

definition read_urls :: "string list \<Rightarrow> string list" where
  "read_urls lines = filter (\<lambda>line. line \<noteq> []) (map strip lines)"

record fetch_state =
  fs_results :: "fetch_result list"
  success_count :: nat
  fail_count :: nat
  raw_written :: "(string \<times> string) list"

definition failed_fetch :: "string \<Rightarrow> string \<Rightarrow> fetch_result" where
  "failed_fetch u e =
     \<lparr>url = u, result_file = None, result_size = None, fetch_error = Some e,
      fetch_status = ''failed''\<rparr>"

text \<open>Lines 40 to 69: one URL, with the \<open>try\<close> block and its handler.\<close>

definition fetch_step :: "fetch_env \<Rightarrow> nat \<Rightarrow> string \<Rightarrow> fetch_state \<Rightarrow> fetch_state" where
  "fetch_step env index u st =
     (let page_num = index + 1;
          out_file = ''/shared/raw/page_'' @ str_nat page_num @ ''.html''
      in case urlopen_read env index u of
           Inl e \<Rightarrow>
             st\<lparr>fs_results := fs_results st @ [failed_fetch u e],
                fail_count := fail_count st + 1\<rparr>
         | Inr content \<Rightarrow>
             (case write_raw_error env out_file of
                Some e \<Rightarrow>
                  st\<lparr>fs_results := fs_results st @ [failed_fetch u e],
                     fail_count := fail_count st + 1\<rparr>
              | None \<Rightarrow>
                  st\<lparr>raw_written := raw_written st @ [(out_file, content)],
                     fs_results := fs_results st @
                       [\<lparr>url = u,
                         result_file = Some (''page_'' @ str_nat page_num @ ''.html''),
                         result_size = Some (length content), fetch_error = None,
                         fetch_status = ''success''\<rparr>],
                     success_count := success_count st + 1\<rparr>))"

text \<open>The loop of lines 38 to 72, on the URLs from \<open>index\<close> on.\<close>

fun fetch_urls :: "fetch_env \<Rightarrow> nat \<Rightarrow> string list \<Rightarrow> fetch_state \<Rightarrow> fetch_state" where
  "fetch_urls env index [] st = st"
| "fetch_urls env index (u # urls) st =
     fetch_urls env (index + 1) urls (fetch_step env index u st)"

text \<open>\<open>main\<close> from line 19 on: the manifest written and the raw files written.\<close>

definition fetch_batch :: "fetch_env \<Rightarrow> fetch_manifest \<times> (string \<times> string) list" where
  "fetch_batch env =
     (let urls = read_urls (input_lines env);
          st = fetch_urls env 0 urls
                 \<lparr>fs_results = [], success_count = 0, fail_count = 0, raw_written = []\<rparr>
      in (\<lparr>fetch_timestamp = fetch_now env, urls_processed = length urls,
           fetch_successful = success_count st, fetch_failed = fail_count st,
           fetch_results = fs_results st\<rparr>,
          raw_written st))"

definition fetch_main :: "fetch_env \<Rightarrow> (fetch_manifest \<times> (string \<times> string) list) option" where
  "fetch_main env =
     (case wait_for (input_present env) 0 of
        None \<Rightarrow> None
      | Some k \<Rightarrow> Some (fetch_batch env))"

section \<open>Example environments\<close>

definition example_fetch_env :: fetch_env where
  "example_fetch_env =
     \<lparr>input_present = (\<lambda>k. 2 \<le> k),
      input_lines = [''http://a  '', ''   '', ''http://b''],
      urlopen_read = (\<lambda>i u. if i = 0 then Inr ''body'' else Inl ''timed out''),
      write_raw_error = (\<lambda>p. None),
      fetch_now = ''t0''\<rparr>"

definition example_process_env :: process_env where
  "example_process_env =
     \<lparr>fetch_done = (\<lambda>k. 1 \<le> k),
      raw_dir = Some [''page_2.html'', ''page_1.html'', ''notes.txt''],
      read_text_file =
        (\<lambda>p. if p = ''/shared/raw/page_1.html''
             then Inr ''<script>x</script><p>Hello world.</p>''
             else Inl ''Permission denied''),
      write_json_error = (\<lambda>p. None),
      process_now = ''t1''\<rparr>"

definition example_missing_raw_env :: process_env where
  "example_missing_raw_env = example_process_env\<lparr>raw_dir := None\<rparr>"

definition example_empty_raw_env :: process_env where
  "example_empty_raw_env = example_process_env\<lparr>raw_dir := Some [''notes.txt'', ''html'']\<rparr>"

definition example_analyze_env :: analyze_env where
  "example_analyze_env =
     \<lparr>process_done = (\<lambda>k. 1 \<le> k),
      processed_dir = Some [''page_2.json'', ''page_1.json'', ''page_3.json''],
      read_json =
        (\<lambda>p. if p = ''/shared/processed/page_1.json'' then Inr (JObj [(''text'', JStr ''A a.'')])
             else if p = ''/shared/processed/page_2.json'' then Inr (JObj [(''text'', JStr ''b'')])
             else Inl ''Expecting value''),
      analyze_now = ''t2''\<rparr>"

section \<open>Notions of the specification\<close>

text \<open>
  The order of the ranking as the specification words it: descending frequency, ties
  broken by the ascending lexicographic order of the term.
\<close>

definition ranks_before :: "string \<times> nat \<Rightarrow> string \<times> nat \<Rightarrow> bool" where
  "ranks_before x y \<longleftrightarrow> snd y < snd x \<or> (snd x = snd y \<and> fst x < fst y)"

text \<open>
  \<open>out\<close> is the first \<open>K\<close> of the items in that order: it is in order, it has \<open>K\<close>
  items or all of them, and every item left out comes after every item kept.
\<close>

definition is_top_k :: "nat \<Rightarrow> (string \<times> nat) list \<Rightarrow> (string \<times> nat) list \<Rightarrow> bool" where
  "is_top_k K items out \<longleftrightarrow>
     sorted_wrt ranks_before out \<and> length out = min K (length items) \<and>
     set out \<subseteq> set items \<and>
     (\<forall>x \<in> set items - set out. \<forall>y \<in> set out. ranks_before y x)"


text \<open>The count a frequency \<open>dict\<close> holds for a key, 0 for a key it does not hold.\<close>

definition count_of :: "('k \<times> nat) list \<Rightarrow> 'k \<Rightarrow> nat" where
  "count_of d k = (case map_of d k of None \<Rightarrow> 0 | Some c \<Rightarrow> c)"

text \<open>
  What the main loop of the analyze stage keeps true: the three frequency \<open>dict\<close>s
  have distinct keys and no zero count, and the word counts and the total are those of
  the words of the documents read so far.
\<close>

definition corpus_inv :: "corpus \<Rightarrow> bool" where
  "corpus_inv a \<longleftrightarrow>
     distinct (map fst (global_freq a)) \<and> distinct (map fst (bigram_freq a)) \<and>
     distinct (map fst (trigram_freq a)) \<and>
     (\<forall>w. count_of (global_freq a) w = count_list (concat (map doc_words (docs a))) w) \<and>
     (\<forall>x \<in> set (global_freq a). 0 < snd x) \<and>
     total_words a = length (concat (map doc_words (docs a)))"

definition example_corpus :: corpus where
  "example_corpus =
     \<lparr>docs = [\<lparr>doc_file = ''page_1.json'', doc_words = [''a'', ''a'']\<rparr>,
              \<lparr>doc_file = ''page_2.json'', doc_words = [''b'']\<rparr>],
      global_freq = [(''a'', 2), (''b'', 1)], total_words = 3,
      total_sentence_count = 2, total_sentence_words = 3,
      all_words_for_readability = [''a'', ''a'', ''b''],
      bigram_freq = [(''a a'', 1)], trigram_freq = []\<rparr>"

text \<open>\<open>TAG_RE.search(s)\<close> finds a match.\<close>

fun has_tag :: "string \<Rightarrow> bool" where
  "has_tag [] = False"
| "has_tag (c # cs) =
     ((c = CHR ''<'' \<and>
       (case cs of [] \<Rightarrow> False | d # ds \<Rightarrow> d \<noteq> CHR ''>'' \<and> CHR ''>'' \<in> set ds)) \<or>
      has_tag cs)"

text \<open>
  A text with no markup tag: nothing in it matches \<open>TAG_RE\<close>, and it has no opening
  \<open>script\<close> or \<open>style\<close> tag as \<open>remove_tag_block\<close> looks for them.
\<close>

definition plain_text :: "string \<Rightarrow> bool" where
  "plain_text s \<longleftrightarrow>
     \<not> has_tag s \<and> find_str (lower s) (open_pat ''script'') = None \<and>
     find_str (lower s) (open_pat ''style'') = None"

text \<open>Every white space character of the string is a space, and no two are adjacent.\<close>

fun collapsed :: "string \<Rightarrow> bool" where
  "collapsed [] = True"
| "collapsed [c] = (is_space_char c \<longrightarrow> c = CHR '' '')"
| "collapsed (c # d # r) =
     ((is_space_char c \<longrightarrow> c = CHR '' '' \<and> \<not> is_space_char d) \<and> collapsed (d # r))"

section \<open>The stages reach their batch\<close>

lemma wait_for_finds: "present (k + n) \<Longrightarrow> \<exists>m. wait_for present k = Some m"
proof (induction n arbitrary: k)
  case 0
  then show ?case by (subst wait_for.simps) simp
next
  case (Suc n)
  show ?case
  proof (cases "present k")
    case True
    then show ?thesis by (subst wait_for.simps) simp
  next
    case False
    from Suc.prems have "present (Suc k + n)" by simp
    from Suc.IH [OF this] obtain m where "wait_for present (Suc k) = Some m" ..
    with False show ?thesis by (subst wait_for.simps) simp
  qed
qed

lemma analyze_main_runs: "process_done env n \<Longrightarrow> analyze_main env = Some (analyze_batch env)"
  using wait_for_finds [of "process_done env" 0 n] by (auto simp: analyze_main_def)

lemma process_main_runs: "fetch_done env n \<Longrightarrow> process_main env = Some (process_batch env)"
  using wait_for_finds [of "fetch_done env" 0 n] by (auto simp: process_main_def)

lemma fetch_main_runs: "input_present env n \<Longrightarrow> fetch_main env = Some (fetch_batch env)"
  using wait_for_finds [of "input_present env" 0 n] by (auto simp: fetch_main_def)

section \<open>Jaccard similarity\<close>

text \<open>
  Claim C5. For all word lists \<open>a\<close> and \<open>b\<close>, \<open>jaccard_similarity\<close> is symmetric and
  its value lies between 0 and 1; a list compared with itself gives 1 when it has a
  token and 0 when it has none, and two lists without tokens give 0.
\<close>

theorem jaccard_similarity_symmetric_bounded:
  "jaccard_similarity a b = jaccard_similarity b a \<and>
   0 \<le> jaccard_similarity a b \<and> jaccard_similarity a b \<le> 1 \<and>
   jaccard_similarity a a = (if set a = {} then 0 else 1) \<and>
   jaccard_similarity [] [] = 0"
proof -
  have sym: "jaccard_similarity a b = jaccard_similarity b a"
    by (simp add: jaccard_similarity_def Let_def Int_commute Un_commute)
  have "card (set a \<inter> set b) \<le> card (set a \<union> set b)"
    by (rule card_mono) auto
  then have "(of_nat (card (set a \<inter> set b)) :: rat) \<le> of_nat (card (set a \<union> set b))"
    by (simp only: of_nat_le_iff)
  then have bounds: "0 \<le> jaccard_similarity a b \<and> jaccard_similarity a b \<le> 1"
    by (simp add: jaccard_similarity_def Let_def divide_le_eq_1)
  have self: "jaccard_similarity a a = (if set a = {} then 0 else 1)"
    by (simp add: jaccard_similarity_def Let_def card_gt_0_iff)
  have "jaccard_similarity [] [] = 0"
    by (simp add: jaccard_similarity_def)
  with sym bounds self show ?thesis by blast
qed

theorem jaccard_similarity_witness:
  "jaccard_similarity [''a'', ''b'', ''c''] [''b'', ''c'', ''d''] = 1 / 2 \<and>
   jaccard_similarity [''b'', ''c'', ''d''] [''a'', ''b'', ''c''] = 1 / 2 \<and>
   jaccard_similarity [''a'', ''b''] [''a'', ''b''] = 1"
proof -
  have "jaccard_similarity [''a'', ''b'', ''c''] [''b'', ''c'', ''d''] = 1 / 2"
    by code_simp
  moreover have "set [''a'', ''b''] \<noteq> ({} :: string set)" by simp
  ultimately show ?thesis
    using jaccard_similarity_symmetric_bounded [of "[''a'', ''b'', ''c'']" "[''b'', ''c'', ''d'']"]
      jaccard_similarity_symmetric_bounded [of "[''a'', ''b'']" "[''a'', ''b'']"]
    by simp
qed

section \<open>The fetch manifest\<close>

lemma fetch_step_result:
  "\<exists>r. fs_results (fetch_step env i u st) = fs_results st @ [r] \<and> url r = u \<and>
     ((fetch_status r = ''success'' \<and>
       success_count (fetch_step env i u st) = success_count st + 1 \<and>
       fail_count (fetch_step env i u st) = fail_count st) \<or>
      (fetch_status r = ''failed'' \<and>
       success_count (fetch_step env i u st) = success_count st \<and>
       fail_count (fetch_step env i u st) = fail_count st + 1))"
proof (cases "urlopen_read env i u")
  case (Inl e)
  then show ?thesis by (simp add: fetch_step_def failed_fetch_def)
next
  case (Inr content)
  show ?thesis
  proof (cases "write_raw_error env (''/shared/raw/page_'' @ str_nat (i + 1) @ ''.html'')")
    case None
    with Inr show ?thesis by (simp add: fetch_step_def)
  next
    case (Some e)
    with Inr show ?thesis by (simp add: fetch_step_def failed_fetch_def)
  qed
qed

lemma fetch_urls_results:
  "\<exists>rs. fs_results (fetch_urls env i urls st) = fs_results st @ rs \<and> map url rs = urls \<and>
     (\<forall>r \<in> set rs. fetch_status r = ''success'' \<or> fetch_status r = ''failed'') \<and>
     success_count (fetch_urls env i urls st) =
       success_count st + length (filter (\<lambda>r. fetch_status r = ''success'') rs) \<and>
     fail_count (fetch_urls env i urls st) =
       fail_count st + length (filter (\<lambda>r. fetch_status r = ''failed'') rs)"
proof (induction urls arbitrary: i st)
  case Nil
  show ?case by simp
next
  case (Cons u urls)
  obtain r where r: "fs_results (fetch_step env i u st) = fs_results st @ [r]" "url r = u"
    and cnt: "(fetch_status r = ''success'' \<and>
       success_count (fetch_step env i u st) = success_count st + 1 \<and>
       fail_count (fetch_step env i u st) = fail_count st) \<or>
      (fetch_status r = ''failed'' \<and>
       success_count (fetch_step env i u st) = success_count st \<and>
       fail_count (fetch_step env i u st) = fail_count st + 1)"
    using fetch_step_result [of env i u st] by blast
  from Cons.IH [of "i + 1" "fetch_step env i u st"]
  obtain rs where rs: "fs_results (fetch_urls env (i + 1) urls (fetch_step env i u st)) =
        fs_results (fetch_step env i u st) @ rs" "map url rs = urls"
      "\<forall>r \<in> set rs. fetch_status r = ''success'' \<or> fetch_status r = ''failed''"
      "success_count (fetch_urls env (i + 1) urls (fetch_step env i u st)) =
         success_count (fetch_step env i u st) +
         length (filter (\<lambda>r. fetch_status r = ''success'') rs)"
      "fail_count (fetch_urls env (i + 1) urls (fetch_step env i u st)) =
         fail_count (fetch_step env i u st) +
         length (filter (\<lambda>r. fetch_status r = ''failed'') rs)"
    by blast
  have a: "fs_results (fetch_urls env i (u # urls) st) = fs_results st @ (r # rs)"
    using r rs by simp
  have b: "map url (r # rs) = u # urls"
    using r rs by simp
  have c: "\<forall>x \<in> set (r # rs). fetch_status x = ''success'' \<or> fetch_status x = ''failed''"
    using cnt rs by auto
  have d: "success_count (fetch_urls env i (u # urls) st) =
       success_count st + length (filter (\<lambda>r. fetch_status r = ''success'') (r # rs))"
    using cnt rs by auto
  have e: "fail_count (fetch_urls env i (u # urls) st) =
       fail_count st + length (filter (\<lambda>r. fetch_status r = ''failed'') (r # rs))"
    using cnt rs by auto
  show ?case
    by (rule exI [of _ "r # rs"]) (intro conjI a b c d e)
qed

lemma success_or_failed_length:
  assumes "\<forall>r \<in> set rs. f r = ''success'' \<or> f r = ''failed''"
  shows "length (filter (\<lambda>r. f r = ''success'') rs) + length (filter (\<lambda>r. f r = ''failed'') rs)
         = length rs"
  using assms by (induction rs) auto

text \<open>
  Claim C3. Once the input file is there, the fetch stage writes a manifest whose
  \<open>urls_processed\<close> is the number of URLs (the stripped, non-empty lines of the input
  file), whose \<open>successful\<close> and \<open>failed\<close> counts add up to that number, and whose
  results hold one record per URL, in the order of the input, each marked
  \<open>success\<close> or \<open>failed\<close>. This holds for the empty list as well.
\<close>

theorem fetch_manifest_one_record_per_url:
  assumes "input_present env n"
  shows "\<exists>m w. fetch_main env = Some (m, w) \<and>
     urls_processed m = length (read_urls (input_lines env)) \<and>
     fetch_successful m + fetch_failed m = length (read_urls (input_lines env)) \<and>
     map url (fetch_results m) = read_urls (input_lines env) \<and>
     (\<forall>r \<in> set (fetch_results m). fetch_status r = ''success'' \<or> fetch_status r = ''failed'') \<and>
     fetch_successful m = length (filter (\<lambda>r. fetch_status r = ''success'') (fetch_results m)) \<and>
     fetch_failed m = length (filter (\<lambda>r. fetch_status r = ''failed'') (fetch_results m))"
proof -
  define st0 where
    "st0 = \<lparr>fs_results = [], success_count = 0, fail_count = 0, raw_written = []\<rparr>"
  define urls where "urls = read_urls (input_lines env)"
  define st where "st = fetch_urls env 0 urls st0"
  obtain rs where rs: "fs_results st = rs" "map url rs = urls"
    "\<forall>r \<in> set rs. fetch_status r = ''success'' \<or> fetch_status r = ''failed''"
    "success_count st = length (filter (\<lambda>r. fetch_status r = ''success'') rs)"
    "fail_count st = length (filter (\<lambda>r. fetch_status r = ''failed'') rs)"
    using fetch_urls_results [of env 0 urls st0] by (auto simp: st_def st0_def)
  have len: "length rs = length urls"
    using rs(2) by (metis length_map)
  have total: "success_count st + fail_count st = length urls"
    using success_or_failed_length [OF rs(3)] rs(4,5) len by simp
  have "fetch_main env = Some (fetch_batch env)"
    using assms by (rule fetch_main_runs)
  moreover have "fetch_batch env =
      (\<lparr>fetch_timestamp = fetch_now env, urls_processed = length urls,
        fetch_successful = success_count st, fetch_failed = fail_count st,
        fetch_results = fs_results st\<rparr>, raw_written st)"
    by (simp add: fetch_batch_def Let_def st_def st0_def urls_def)
  ultimately show ?thesis
    using rs total by (simp add: urls_def)
qed

theorem fetch_manifest_witness:
  "input_present example_fetch_env 2 \<and>
   (\<exists>m w. fetch_main example_fetch_env = Some (m, w) \<and> urls_processed m = 2 \<and>
      fetch_successful m + fetch_failed m = 2 \<and>
      map url (fetch_results m) = [''http://a'', ''http://b''])"
proof -
  have p: "input_present example_fetch_env 2"
    by (simp add: example_fetch_env_def)
  have u: "read_urls (input_lines example_fetch_env) = [''http://a'', ''http://b'']"
    unfolding example_fetch_env_def by code_simp
  from fetch_manifest_one_record_per_url [OF p] u p show ?thesis
    by auto
qed

section \<open>The extract manifest when there is nothing to extract\<close>

text \<open>
  Claim C4. When the raw directory is missing as the extract stage begins its batch, the
  stage writes a manifest with an error field, \<open>files_processed\<close>, \<open>successful\<close> and
  \<open>failed\<close> all 0 and no results, writes no document, and returns the exit code 1.
\<close>

theorem missing_raw_dir_manifest:
  assumes "fetch_done env n" and "raw_dir env = None"
  shows "process_main env =
     Some (1,
           \<lparr>timestamp = process_now env, manifest_status = Some ''failed'',
            manifest_error = Some ''Missing raw dir /shared/raw'', files_processed = 0,
            successful = 0, failed = 0, results = []\<rparr>,
           [])"
  using process_main_runs [OF assms(1)] assms(2)
  by (simp add: process_batch_def RAW_DIR_def)

theorem missing_raw_dir_witness:
  "fetch_done example_missing_raw_env 1 \<and> raw_dir example_missing_raw_env = None \<and>
   process_main example_missing_raw_env =
     Some (1,
           \<lparr>timestamp = ''t1'', manifest_status = Some ''failed'',
            manifest_error = Some ''Missing raw dir /shared/raw'', files_processed = 0,
            successful = 0, failed = 0, results = []\<rparr>,
           [])"
proof -
  have a: "fetch_done example_missing_raw_env 1"
    by (simp add: example_missing_raw_env_def example_process_env_def)
  have b: "raw_dir example_missing_raw_env = None"
    by (simp add: example_missing_raw_env_def)
  from missing_raw_dir_manifest [OF a b] a b show ?thesis
    by (simp add: example_missing_raw_env_def example_process_env_def)
qed

text \<open>
  Claim C9. When the raw directory exists and no name in it ends in \<open>.html\<close> (in any
  letter case), the manifest has \<open>files_processed\<close>, \<open>successful\<close> and \<open>failed\<close> all 0,
  no results and no error field, and the exit code is 0.
\<close>

theorem empty_raw_dir_manifest:
  assumes "fetch_done env n" and "raw_dir env = Some names"
    and "\<forall>name \<in> set names. \<not> endswith (lower name) ''.html''"
  shows "process_main env =
     Some (0,
           \<lparr>timestamp = process_now env, manifest_status = None, manifest_error = None,
            files_processed = 0, successful = 0, failed = 0, results = []\<rparr>,
           [])"
proof -
  have "filter (\<lambda>name. endswith (lower name) ''.html'') names = []"
    using assms(3) by (simp add: filter_empty_conv)
  then have "html_files names = []"
    by (simp add: html_files_def)
  with process_main_runs [OF assms(1)] assms(2) show ?thesis
    by (simp add: process_batch_def)
qed

theorem empty_raw_dir_witness:
  "fetch_done example_empty_raw_env 1 \<and>
   raw_dir example_empty_raw_env = Some [''notes.txt'', ''html''] \<and>
   \<not> endswith (lower ''notes.txt'') ''.html'' \<and> \<not> endswith (lower ''html'') ''.html'' \<and>
   process_main example_empty_raw_env =
     Some (0,
           \<lparr>timestamp = ''t1'', manifest_status = None, manifest_error = None,
            files_processed = 0, successful = 0, failed = 0, results = []\<rparr>,
           [])"
proof -
  have a: "fetch_done example_empty_raw_env 1"
    by (simp add: example_empty_raw_env_def example_process_env_def)
  have b: "raw_dir example_empty_raw_env = Some [''notes.txt'', ''html'']"
    by (simp add: example_empty_raw_env_def)
  have c': "\<not> endswith (lower ''notes.txt'') ''.html''" "\<not> endswith (lower ''html'') ''.html''"
    by code_simp+
  then have c: "\<forall>name \<in> set [''notes.txt'', ''html'']. \<not> endswith (lower name) ''.html''"
    by simp
  from empty_raw_dir_manifest [OF a b c] a b c' show ?thesis
    by (simp add: example_empty_raw_env_def example_process_env_def)
qed

section \<open>One outcome per raw file\<close>

lemma last_segment_raw:
  assumes "CHR ''/'' \<notin> set f"
  shows "last_segment (RAW_DIR @ ''/'' @ f) = f"
proof -
  have "rev (RAW_DIR @ ''/'' @ f) = rev f @ CHR ''/'' # rev RAW_DIR"
    by simp
  moreover have "takeWhile (\<lambda>c. c \<noteq> CHR ''/'') (rev f @ CHR ''/'' # rev RAW_DIR) = rev f"
    using assms by (subst takeWhile_append2) auto
  ultimately show ?thesis
    by (simp only: last_segment_def rev_rev_ident)
qed

lemma process_one_file_source:
  "process_one_file env p = Inr d \<Longrightarrow> source_file d = last_segment p"
  by (auto simp: process_one_file_def Let_def split: sum.splits prod.splits)

lemma process_step_result:
  assumes "CHR ''/'' \<notin> set f"
  shows "\<exists>r. loop_results (process_step env f st) = loop_results st @ [r] \<and>
     result_source_file r = f \<and>
     ((result_status r = ''success'' \<and> output_file r \<noteq> None \<and> result_error r = None \<and>
       (\<exists>p d. written (process_step env f st) = written st @ [(p, d)] \<and> source_file d = f) \<and>
       ok (process_step env f st) = ok st + 1 \<and> bad (process_step env f st) = bad st) \<or>
      (result_status r = ''failed'' \<and> output_file r = None \<and> result_error r \<noteq> None \<and>
       written (process_step env f st) = written st \<and>
       ok (process_step env f st) = ok st \<and> bad (process_step env f st) = bad st + 1))"
proof (cases "process_one_file env (RAW_DIR @ ''/'' @ f)")
  case (Inl e)
  then show ?thesis by (simp add: process_step_def Let_def failed_result_def)
next
  case (Inr obj)
  then have src: "source_file obj = f"
    using process_one_file_source [of env "RAW_DIR @ ''/'' @ f" obj] last_segment_raw [OF assms]
    by simp
  show ?thesis
  proof (cases "write_json_error env (out_path_of f)")
    case None
    with Inr src show ?thesis by (simp add: process_step_def Let_def)
  next
    case (Some e)
    with Inr show ?thesis by (simp add: process_step_def Let_def failed_result_def)
  qed
qed


lemma process_files_results:
  assumes "\<forall>f \<in> set files. CHR ''/'' \<notin> set f"
  shows "\<exists>rs ds.
     loop_results (process_files env files st) = loop_results st @ rs \<and>
     written (process_files env files st) = written st @ ds \<and>
     map result_source_file rs = files \<and>
     (\<forall>r \<in> set rs.
        (result_status r = ''success'' \<and> output_file r \<noteq> None \<and> result_error r = None) \<or>
        (result_status r = ''failed'' \<and> output_file r = None \<and> result_error r \<noteq> None)) \<and>
     map (\<lambda>pd. source_file (snd pd)) ds =
       map result_source_file (filter (\<lambda>r. result_status r = ''success'') rs) \<and>
     ok (process_files env files st) =
       ok st + length (filter (\<lambda>r. result_status r = ''success'') rs) \<and>
     bad (process_files env files st) =
       bad st + length (filter (\<lambda>r. result_status r = ''failed'') rs)"
  using assms
proof (induction files arbitrary: st)
  case Nil
  show ?case by simp
next
  case (Cons f files)
  let ?st1 = "process_step env f st"
  from Cons.prems have nf: "CHR ''/'' \<notin> set f" and rest: "\<forall>f \<in> set files. CHR ''/'' \<notin> set f"
    by simp_all
  obtain r where r: "loop_results ?st1 = loop_results st @ [r]" "result_source_file r = f"
    and alt: "(result_status r = ''success'' \<and> output_file r \<noteq> None \<and> result_error r = None \<and>
       (\<exists>p d. written ?st1 = written st @ [(p, d)] \<and> source_file d = f) \<and>
       ok ?st1 = ok st + 1 \<and> bad ?st1 = bad st) \<or>
      (result_status r = ''failed'' \<and> output_file r = None \<and> result_error r \<noteq> None \<and>
       written ?st1 = written st \<and> ok ?st1 = ok st \<and> bad ?st1 = bad st + 1)"
    using process_step_result [OF nf, of env st] by blast
  from Cons.IH [OF rest, of ?st1]
  obtain rs ds where rs:
      "loop_results (process_files env files ?st1) = loop_results ?st1 @ rs"
      "written (process_files env files ?st1) = written ?st1 @ ds"
      "map result_source_file rs = files"
      "\<forall>r \<in> set rs.
        (result_status r = ''success'' \<and> output_file r \<noteq> None \<and> result_error r = None) \<or>
        (result_status r = ''failed'' \<and> output_file r = None \<and> result_error r \<noteq> None)"
      "map (\<lambda>pd. source_file (snd pd)) ds =
         map result_source_file (filter (\<lambda>r. result_status r = ''success'') rs)"
      "ok (process_files env files ?st1) =
         ok ?st1 + length (filter (\<lambda>r. result_status r = ''success'') rs)"
      "bad (process_files env files ?st1) =
         bad ?st1 + length (filter (\<lambda>r. result_status r = ''failed'') rs)"
    by blast
  from alt show ?case
  proof
    assume s: "result_status r = ''success'' \<and> output_file r \<noteq> None \<and> result_error r = None \<and>
       (\<exists>p d. written ?st1 = written st @ [(p, d)] \<and> source_file d = f) \<and>
       ok ?st1 = ok st + 1 \<and> bad ?st1 = bad st"
    then obtain p d where w: "written ?st1 = written st @ [(p, d)]" "source_file d = f"
      by blast
    show ?thesis
      by (rule exI [of _ "r # rs"], rule exI [of _ "(p, d) # ds"])
        (use r rs s w in simp)
  next
    assume s: "result_status r = ''failed'' \<and> output_file r = None \<and> result_error r \<noteq> None \<and>
       written ?st1 = written st \<and> ok ?st1 = ok st \<and> bad ?st1 = bad st + 1"
    show ?thesis
      by (rule exI [of _ "r # rs"], rule exI [of _ ds])
        (use r rs s in simp)
  qed
qed

lemma distinct_map_filter_single:
  assumes "distinct (map g xs)" and "x \<in> set xs"
  shows "filter (\<lambda>y. g y = g x) xs = [x]"
  using assms
proof (induction xs)
  case Nil
  then show ?case by simp
next
  case (Cons a xs)
  show ?case
  proof (cases "a = x")
    case True
    with Cons.prems have "\<forall>y \<in> set xs. g y \<noteq> g x"
      by (auto simp: image_iff)
    then have "filter (\<lambda>y. g y = g x) xs = []"
      by (simp add: filter_empty_conv)
    with True show ?thesis by simp
  next
    case False
    with Cons.prems have "x \<in> set xs" and "g a \<noteq> g x"
      by (auto simp: image_iff)
    with Cons show ?thesis by simp
  qed
qed

lemma html_files_set: "set (html_files names) = {x \<in> set names. endswith (lower x) ''.html''}"
  by (simp add: html_files_def)

lemma html_files_distinct: "distinct names \<Longrightarrow> distinct (html_files names)"
  by (simp add: html_files_def)

text \<open>
  Claim C2. The names in the raw directory are distinct and contain no \<open>/\<close>, as the
  names of a directory listing are. For every such name \<open>f\<close> that ends in \<open>.html\<close>,
  the manifest holds exactly one entry for \<open>f\<close>, and either that entry is a success
  and the stage has written exactly one document for \<open>f\<close>, or it is a failure and
  the stage has written none. A document is attributed to the raw file named in its
  \<open>source_file\<close> field. Nothing is assumed about the other files: whether they fail
  or not, \<open>f\<close> gets its entry. The counts of the manifest are those of its entries.
\<close>

theorem extract_one_outcome_per_file:
  assumes "fetch_done env n" and "raw_dir env = Some names"
    and "distinct names" and "\<forall>name \<in> set names. CHR ''/'' \<notin> set name"
    and "f \<in> set names" and "endswith (lower f) ''.html''"
  shows "\<exists>m docs r. process_main env = Some (0, m, docs) \<and>
     filter (\<lambda>x. result_source_file x = f) (results m) = [r] \<and>
     ((result_status r = ''success'' \<and> output_file r \<noteq> None \<and>
       length (filter (\<lambda>pd. source_file (snd pd) = f) docs) = 1) \<or>
      (result_status r = ''failed'' \<and> output_file r = None \<and>
       filter (\<lambda>pd. source_file (snd pd) = f) docs = [])) \<and>
     files_processed m = length (results m) \<and>
     successful m = length (filter (\<lambda>x. result_status x = ''success'') (results m)) \<and>
     failed m = length (filter (\<lambda>x. result_status x = ''failed'') (results m)) \<and>
     successful m = length docs"
proof -
  define files where "files = html_files names"
  define st0 where "st0 = \<lparr>loop_results = [], ok = 0, bad = 0, written = ([] :: (string \<times> document) list)\<rparr>"
  define st where "st = process_files env files st0"
  have slash: "\<forall>x \<in> set files. CHR ''/'' \<notin> set x"
    using assms(4) by (simp add: files_def html_files_set)
  have dist: "distinct files"
    using assms(3) by (simp add: files_def html_files_distinct)
  have f_in: "f \<in> set files"
    using assms(5,6) by (simp add: files_def html_files_set)
  obtain rs ds where rs: "loop_results st = rs" "written st = ds"
      "map result_source_file rs = files"
      "\<forall>r \<in> set rs.
        (result_status r = ''success'' \<and> output_file r \<noteq> None \<and> result_error r = None) \<or>
        (result_status r = ''failed'' \<and> output_file r = None \<and> result_error r \<noteq> None)"
      "map (\<lambda>pd. source_file (snd pd)) ds =
         map result_source_file (filter (\<lambda>r. result_status r = ''success'') rs)"
      "ok st = length (filter (\<lambda>r. result_status r = ''success'') rs)"
      "bad st = length (filter (\<lambda>r. result_status r = ''failed'') rs)"
    using process_files_results [OF slash, of env st0] by (auto simp: st_def st0_def)
  from f_in rs(3) obtain r where r: "r \<in> set rs" "result_source_file r = f"
    by (metis (no_types, lifting) image_iff list.set_map)
  have "distinct (map result_source_file rs)"
    using dist rs(3) by simp
  from distinct_map_filter_single [OF this r(1)] r(2)
  have single: "filter (\<lambda>x. result_source_file x = f) rs = [r]"
    by simp
  have "length (filter (\<lambda>pd. source_file (snd pd) = f) ds)
        = length (filter (\<lambda>x. x = f) (map (\<lambda>pd. source_file (snd pd)) ds))"
    by (simp add: filter_map comp_def)
  also have "\<dots> = length (filter (\<lambda>x. x = f)
        (map result_source_file (filter (\<lambda>r. result_status r = ''success'') rs)))"
    by (simp only: rs(5))
  also have "\<dots> = length (filter (\<lambda>r. result_status r = ''success'')
        (filter (\<lambda>x. result_source_file x = f) rs))"
    by (simp add: filter_map comp_def conj_commute)
  also have "\<dots> = (if result_status r = ''success'' then 1 else 0)"
    by (simp add: single)
  finally have docs_f: "length (filter (\<lambda>pd. source_file (snd pd) = f) ds)
        = (if result_status r = ''success'' then 1 else 0)" .
  have shape: "(result_status r = ''success'' \<and> output_file r \<noteq> None) \<or>
        (result_status r = ''failed'' \<and> output_file r = None)"
    using rs(4) r(1) by blast
  have alt: "(result_status r = ''success'' \<and> output_file r \<noteq> None \<and>
       length (filter (\<lambda>pd. source_file (snd pd) = f) ds) = 1) \<or>
      (result_status r = ''failed'' \<and> output_file r = None \<and>
       filter (\<lambda>pd. source_file (snd pd) = f) ds = [])"
    using shape docs_f by auto
  have "length ds = length (map (\<lambda>pd. source_file (snd pd)) ds)"
    by simp
  also have "\<dots> = length (filter (\<lambda>r. result_status r = ''success'') rs)"
    by (simp only: rs(5) length_map)
  finally have nd: "ok st = length ds"
    using rs(6) by simp
  have len: "length rs = length files"
    using rs(3) by (metis length_map)
  have "process_main env = Some (process_batch env)"
    using assms(1) by (rule process_main_runs)
  moreover have "process_batch env =
      (0, \<lparr>timestamp = process_now env, manifest_status = None, manifest_error = None,
           files_processed = length files, successful = ok st, failed = bad st,
           results = loop_results st\<rparr>, written st)"
    using assms(2) by (simp add: process_batch_def Let_def st_def st0_def files_def)
  ultimately show ?thesis
    using rs(1,2,6,7) single alt nd len by simp
qed

theorem extract_one_outcome_witness:
  "fetch_done example_process_env 1 \<and>
   raw_dir example_process_env = Some [''page_2.html'', ''page_1.html'', ''notes.txt''] \<and>
   distinct [''page_2.html'', ''page_1.html'', ''notes.txt''] \<and>
   CHR ''/'' \<notin> set ''page_2.html'' \<and> CHR ''/'' \<notin> set ''page_1.html'' \<and>
   CHR ''/'' \<notin> set ''notes.txt'' \<and>
   ''page_2.html'' \<in> set [''page_2.html'', ''page_1.html'', ''notes.txt''] \<and>
   endswith (lower ''page_2.html'') ''.html'' \<and>
   (\<exists>m docs r. process_main example_process_env = Some (0, m, docs) \<and>
      filter (\<lambda>x. result_source_file x = ''page_2.html'') (results m) = [r] \<and>
      ((result_status r = ''success'' \<and> output_file r \<noteq> None \<and>
        length (filter (\<lambda>pd. source_file (snd pd) = ''page_2.html'') docs) = 1) \<or>
       (result_status r = ''failed'' \<and> output_file r = None \<and>
        filter (\<lambda>pd. source_file (snd pd) = ''page_2.html'') docs = [])))"
proof -
  have a: "fetch_done example_process_env 1"
    by (simp add: example_process_env_def)
  have b: "raw_dir example_process_env = Some [''page_2.html'', ''page_1.html'', ''notes.txt'']"
    by (simp add: example_process_env_def)
  have c: "distinct [''page_2.html'', ''page_1.html'', ''notes.txt'']"
    by simp
  have d: "\<forall>name \<in> set [''page_2.html'', ''page_1.html'', ''notes.txt'']. CHR ''/'' \<notin> set name"
    by simp
  have e: "''page_2.html'' \<in> set [''page_2.html'', ''page_1.html'', ''notes.txt'']"
    by simp
  have f: "endswith (lower ''page_2.html'') ''.html''"
    by code_simp
  have d': "CHR ''/'' \<notin> set ''page_2.html'' \<and> CHR ''/'' \<notin> set ''page_1.html'' \<and>
      CHR ''/'' \<notin> set ''notes.txt''"
    by simp
  from extract_one_outcome_per_file [OF a b c d e f] a b c d' e f show ?thesis
    by blast
qed

section \<open>Documents that cannot be read\<close>

lemma analyze_files_skip:
  assumes "try_read_text rd (PROCESSED_DIR @ ''/'' @ f) = None"
  shows "analyze_files rd (removeAll f files) a = analyze_files rd files a"
proof (induction files arbitrary: a)
  case Nil
  show ?case by simp
next
  case (Cons g files)
  show ?case
  proof (cases "g = f")
    case True
    with assms Cons.IH show ?thesis by simp
  next
    case False
    with Cons.IH show ?thesis
      by (simp split: option.splits json.splits)
  qed
qed

lemma json_files_removeAll: "json_files (removeAll f names) = removeAll f (json_files names)"
proof -
  have "removeAll f (json_files names) = filter (\<lambda>x. f \<noteq> x) (json_files names)"
    by (simp add: removeAll_filter_not_eq)
  also have "\<dots> = sort (filter (\<lambda>x. f \<noteq> x) (filter (\<lambda>name. endswith (lower name) ''.json'') names))"
    by (simp only: json_files_def filter_sort)
  also have "\<dots> = sort (filter (\<lambda>name. endswith (lower name) ''.json'') (filter (\<lambda>x. f \<noteq> x) names))"
    by (simp add: conj_commute)
  also have "\<dots> = json_files (removeAll f names)"
    by (simp add: json_files_def removeAll_filter_not_eq)
  finally show ?thesis by simp
qed

lemma add_document_docs:
  "map doc_file (docs (add_document f t a)) = map doc_file (docs a) @ [f]"
  by (simp add: add_document_def Let_def)

lemma analyze_files_docs:
  assumes "analyze_files rd files a0 = Inr a"
  shows "map doc_file (docs a) =
     map doc_file (docs a0) @
     filter (\<lambda>x. try_read_text rd (PROCESSED_DIR @ ''/'' @ x) \<noteq> None) files"
  using assms
proof (induction files arbitrary: a0)
  case Nil
  then show ?case by simp
next
  case (Cons g files)
  show ?case
  proof (cases "try_read_text rd (PROCESSED_DIR @ ''/'' @ g)")
    case None
    with Cons show ?thesis by simp
  next
    case (Some v)
    with Cons.prems obtain t where v: "v = JStr t"
      by (cases v) simp_all
    with Some Cons.prems have "analyze_files rd files (add_document g t a0) = Inr a"
      by simp
    from Cons.IH [OF this] Some show ?thesis
      by (simp add: add_document_docs)
  qed
qed

lemma sim_pairs_names:
  "s \<in> set (sim_pairs ds) \<Longrightarrow> doc1 s \<in> doc_file ` set ds \<and> doc2 s \<in> doc_file ` set ds"
  by (induction ds) auto

text \<open>
  Claim C10. When \<open>read_json\<close> raises on a file of the directory of documents (the
  file cannot be read, or is not JSON), the stage ends exactly as it does when the
  file is not in the directory at all: same exit code and same report, or the same
  exception. So the file adds nothing to any statistic of the report. In the report,
  the file is in no similarity pair, \<open>documents_processed\<close> counts only the files
  whose text was read, and the error field is absent; the report has no other place
  for a failure.
\<close>

theorem unreadable_document_skipped:
  assumes "process_done env n" and "processed_dir env = Some names"
    and "read_json env (PROCESSED_DIR @ ''/'' @ f) = Inl e"
  shows "\<exists>res. analyze_main env = Some res \<and>
     analyze_main (env\<lparr>processed_dir := Some (removeAll f names)\<rparr>) = Some res \<and>
     (\<forall>code rep. res = Inr (code, rep) \<longrightarrow>
        report_error rep = None \<and>
        (\<forall>s \<in> set (document_similarity rep). doc1 s \<noteq> f \<and> doc2 s \<noteq> f) \<and>
        documents_processed rep =
          length (filter (\<lambda>x. try_read_text (read_json env) (PROCESSED_DIR @ ''/'' @ x) \<noteq> None)
                    (json_files names)))"
proof -
  let ?env' = "env\<lparr>processed_dir := Some (removeAll f names)\<rparr>"
  have skip: "try_read_text (read_json env) (PROCESSED_DIR @ ''/'' @ f) = None"
    using assms(3) by (simp add: try_read_text_def)
  have same: "analyze_batch ?env' = analyze_batch env"
    using assms(2)
    by (simp add: analyze_batch_def json_files_removeAll analyze_files_skip [OF skip]
        split: sum.splits)
  have m1: "analyze_main env = Some (analyze_batch env)"
    using assms(1) by (rule analyze_main_runs)
  have "process_done ?env' n"
    using assms(1) by simp
  then have m2: "analyze_main ?env' = Some (analyze_batch env)"
    using analyze_main_runs [of ?env' n] same by simp
  have rep: "report_error rep = None \<and>
        (\<forall>s \<in> set (document_similarity rep). doc1 s \<noteq> f \<and> doc2 s \<noteq> f) \<and>
        documents_processed rep =
          length (filter (\<lambda>x. try_read_text (read_json env) (PROCESSED_DIR @ ''/'' @ x) \<noteq> None)
                    (json_files names))"
    if "analyze_batch env = Inr (code, rep)" for code rep
  proof -
    from that assms(2) obtain a
      where a: "analyze_files (read_json env) (json_files names) empty_corpus = Inr a"
        and r: "rep = build_report (analyze_now env) a"
      by (auto simp: analyze_batch_def split: sum.splits)
    have d: "map doc_file (docs a) =
        filter (\<lambda>x. try_read_text (read_json env) (PROCESSED_DIR @ ''/'' @ x) \<noteq> None)
          (json_files names)"
      using analyze_files_docs [OF a] by (simp add: empty_corpus_def)
    then have "f \<notin> set (map doc_file (docs a))"
      using skip by simp
    then have nf: "f \<notin> doc_file ` set (docs a)"
      by simp
    have "length (docs a) = length (map doc_file (docs a))"
      by simp
    also have "\<dots> = length (filter (\<lambda>x. try_read_text (read_json env) (PROCESSED_DIR @ ''/'' @ x) \<noteq> None)
          (json_files names))"
      by (simp only: d)
    finally have len: "length (docs a) = length (filter (\<lambda>x. try_read_text (read_json env) (PROCESSED_DIR @ ''/'' @ x) \<noteq> None)
          (json_files names))" .
    have "\<forall>s \<in> set (sim_pairs (docs a)). doc1 s \<noteq> f \<and> doc2 s \<noteq> f"
      using sim_pairs_names nf by metis
    with len show ?thesis
      by (simp add: r build_report_def Let_def)
  qed
  show ?thesis
    using m1 m2 rep by blast
qed

theorem unreadable_document_witness:
  "process_done example_analyze_env 1 \<and>
   processed_dir example_analyze_env = Some [''page_2.json'', ''page_1.json'', ''page_3.json''] \<and>
   read_json example_analyze_env (PROCESSED_DIR @ ''/'' @ ''page_3.json'') = Inl ''Expecting value'' \<and>
   (\<exists>res. analyze_main example_analyze_env = Some res \<and>
      analyze_main (example_analyze_env
        \<lparr>processed_dir := Some (removeAll ''page_3.json'' [''page_2.json'', ''page_1.json'', ''page_3.json''])\<rparr>)
        = Some res)"
proof -
  have a: "process_done example_analyze_env 1"
    by (simp add: example_analyze_env_def)
  have b: "processed_dir example_analyze_env = Some [''page_2.json'', ''page_1.json'', ''page_3.json'']"
    by (simp add: example_analyze_env_def)
  have c: "read_json example_analyze_env (PROCESSED_DIR @ ''/'' @ ''page_3.json'') = Inl ''Expecting value''"
    by (simp add: example_analyze_env_def PROCESSED_DIR_def)
  from unreadable_document_skipped [OF a b c] a b c show ?thesis
    by blast
qed

section \<open>The ranked lists\<close>

lemma rank_key_less:
  "(- int (snd x), fst x) < (- int (snd y), fst y) \<longleftrightarrow> ranks_before x y"
  by (auto simp: ranks_before_def)

lemma rank_key_inj: "inj (\<lambda>x :: string \<times> nat. (- int (snd x), fst x))"
  by (auto simp: inj_def prod_eq_iff)

lemma sort_items_sorted:
  assumes "distinct (map fst d)"
  shows "sorted_wrt ranks_before (sort_items d)"
proof -
  let ?key = "\<lambda>x :: string \<times> nat. (- int (snd x), fst x)"
  have "distinct d"
    using assms by (simp add: distinct_map)
  then have "distinct (map ?key (sort_items d))"
    by (simp add: distinct_map sort_items_def inj_on_def prod_eq_iff)
  moreover have "sorted (map ?key (sort_items d))"
    by (simp add: sort_items_def)
  ultimately have "sorted_wrt (<) (map ?key (sort_items d))"
    by (simp add: strict_sorted_iff)
  then have "sorted_wrt (\<lambda>x y. ?key x < ?key y) (sort_items d)"
    by (simp only: sorted_wrt_map)
  then show ?thesis
    by (rule sorted_wrt_mono_rel [rotated]) (simp only: rank_key_less)
qed

lemma sort_items_deterministic:
  assumes "distinct (map fst d)" and "distinct (map fst d')" and "set d' = set d"
  shows "sort_items d' = sort_items d"
proof -
  let ?key = "\<lambda>x :: string \<times> nat. (- int (snd x), fst x)"
  have dd: "distinct d" "distinct d'"
    using assms(1,2) by (simp_all add: distinct_map)
  have "distinct (map ?key (sort_items d))" "distinct (map ?key (sort_items d'))"
    using dd by (simp_all add: distinct_map sort_items_def inj_on_def prod_eq_iff)
  moreover have "sorted (map ?key (sort_items d))" "sorted (map ?key (sort_items d'))"
    by (simp_all add: sort_items_def)
  moreover have "set (map ?key (sort_items d')) = set (map ?key (sort_items d))"
    using assms(3) by (simp add: sort_items_def)
  ultimately have "map ?key (sort_items d') = map ?key (sort_items d)"
    by (metis sorted_distinct_set_unique)
  then show ?thesis
    using rank_key_inj by (simp only: inj_map_eq_map)
qed

lemma is_top_k_take:
  assumes "distinct (map fst d)"
  shows "is_top_k K d (take K (sort_items d))"
proof -
  have s: "sorted_wrt ranks_before (take K (sort_items d) @ drop K (sort_items d))"
    using sort_items_sorted [OF assms] by simp
  have set_eq: "set d = set (take K (sort_items d)) \<union> set (drop K (sort_items d))"
    by (metis append_take_drop_id set_append set_sort sort_items_def)
  have "sorted_wrt ranks_before (take K (sort_items d))"
    using s by (simp only: sorted_wrt_append)
  moreover have "length (take K (sort_items d)) = min K (length d)"
    by (simp add: sort_items_def min.commute)
  moreover have "set (take K (sort_items d)) \<subseteq> set d"
    using set_eq by blast
  moreover have "\<forall>x \<in> set d - set (take K (sort_items d)).
      \<forall>y \<in> set (take K (sort_items d)). ranks_before y x"
    using s set_eq unfolding sorted_wrt_append by blast
  ultimately show ?thesis
    by (simp add: is_top_k_def)
qed

lemma increment_count_keys:
  "map fst (increment_count d k) = (if k \<in> set (map fst d) then map fst d else map fst d @ [k])"
  by (induction d) force+

lemma distinct_increment_count:
  "distinct (map fst d) \<Longrightarrow> distinct (map fst (increment_count d k))"
  by (simp add: increment_count_keys)

lemma distinct_foldl_increment_count:
  "distinct (map fst d) \<Longrightarrow> distinct (map fst (foldl increment_count d ws))"
  by (induction ws arbitrary: d) (simp_all add: distinct_increment_count)

lemma count_of_increment_count:
  "count_of (increment_count d k) w = count_of d w + (if w = k then 1 else 0)"
  by (induction d) (auto simp: count_of_def)

lemma count_of_foldl_increment_count:
  "count_of (foldl increment_count d ws) w = count_of d w + count_list ws w"
  by (induction ws arbitrary: d) (auto simp: count_of_increment_count)

lemma positive_increment_count:
  "\<forall>x \<in> set d. 0 < snd x \<Longrightarrow> \<forall>x \<in> set (increment_count d k). 0 < snd x"
  by (induction d) (force split: if_splits)+

lemma positive_foldl_increment_count:
  "\<forall>x \<in> set d. 0 < snd x \<Longrightarrow> \<forall>x \<in> set (foldl increment_count d ws). 0 < snd x"
proof (induction ws arbitrary: d)
  case Nil
  then show ?case by simp
next
  case (Cons w ws)
  from Cons.IH [OF positive_increment_count [OF Cons.prems, of w]] show ?case
    by simp
qed

lemma corpus_inv_empty: "corpus_inv empty_corpus"
  by (simp add: corpus_inv_def empty_corpus_def count_of_def)

lemma corpus_inv_add_document:
  assumes "corpus_inv a"
  shows "corpus_inv (add_document f t a)"
proof -
  let ?ws = "tokenize_words_lower t"
  have sel: "global_freq (add_document f t a) = foldl increment_count (global_freq a) ?ws"
    "bigram_freq (add_document f t a) = foldl increment_count (bigram_freq a) (build_ngrams ?ws 2)"
    "trigram_freq (add_document f t a) = foldl increment_count (trigram_freq a) (build_ngrams ?ws 3)"
    "total_words (add_document f t a) = total_words a + length ?ws"
    "concat (map doc_words (docs (add_document f t a))) = concat (map doc_words (docs a)) @ ?ws"
    by (simp_all add: add_document_def Let_def)
  from assms have pos: "\<forall>x \<in> set (global_freq a). 0 < snd x"
    by (simp add: corpus_inv_def)
  have "\<forall>x \<in> set (foldl increment_count (global_freq a) ?ws). 0 < snd x"
    using pos by (rule positive_foldl_increment_count)
  moreover have "distinct (map fst (foldl increment_count (global_freq a) ?ws))"
    "distinct (map fst (foldl increment_count (bigram_freq a) (build_ngrams ?ws 2)))"
    "distinct (map fst (foldl increment_count (trigram_freq a) (build_ngrams ?ws 3)))"
    using assms by (simp_all add: corpus_inv_def distinct_foldl_increment_count)
  moreover have "\<forall>w. count_of (foldl increment_count (global_freq a) ?ws) w =
      count_list (concat (map doc_words (docs a)) @ ?ws) w"
    using assms by (simp add: corpus_inv_def count_of_foldl_increment_count)
  moreover have "total_words a + length ?ws = length (concat (map doc_words (docs a)) @ ?ws)"
    using assms by (simp add: corpus_inv_def)
  ultimately show ?thesis
    unfolding corpus_inv_def sel by blast
qed

lemma analyze_files_inv:
  assumes "analyze_files rd files a0 = Inr a" and "corpus_inv a0"
  shows "corpus_inv a"
  using assms
proof (induction files arbitrary: a0)
  case Nil
  then show ?case by simp
next
  case (Cons g files)
  show ?case
  proof (cases "try_read_text rd (PROCESSED_DIR @ ''/'' @ g)")
    case None
    with Cons show ?thesis by simp
  next
    case (Some v)
    with Cons.prems obtain t where v: "v = JStr t"
      by (cases v) simp_all
    with Some Cons.prems have "analyze_files rd files (add_document g t a0) = Inr a"
      by simp
    from Cons.IH [OF this corpus_inv_add_document [OF Cons.prems(2)]] show ?thesis .
  qed
qed



text \<open>
  Claim C6. For the three frequency \<open>dict\<close>s the loop has built (words, bigrams,
  trigrams), the lists of the report are the first 100, 50 and 50 items in the order
  of descending frequency, ties broken by the ascending lexicographic order of the
  term. The lists are determined by the contents of the \<open>dict\<close>s alone: listing the
  same items in any other order gives the same ranked lists.
\<close>

theorem ranked_lists_of_the_report:
  assumes "process_done env n" and "processed_dir env = Some names"
    and "analyze_files (read_json env) (json_files names) empty_corpus = Inr a"
  shows "\<exists>rep. analyze_main env = Some (Inr (0, rep)) \<and>
     is_top_k 100 (global_freq a) (map (\<lambda>e. (word e, count e)) (top_100_words rep)) \<and>
     is_top_k 50 (bigram_freq a) (map (\<lambda>e. (bigram e, bigram_count e)) (top_bigrams rep)) \<and>
     is_top_k 50 (trigram_freq a) (map (\<lambda>e. (trigram e, trigram_count e)) (top_trigrams rep)) \<and>
     (\<forall>d. distinct (map fst d) \<and> set d = set (global_freq a) \<longrightarrow>
        take 100 (sort_items d) = map (\<lambda>e. (word e, count e)) (top_100_words rep)) \<and>
     (\<forall>d. distinct (map fst d) \<and> set d = set (bigram_freq a) \<longrightarrow>
        take 50 (sort_items d) = map (\<lambda>e. (bigram e, bigram_count e)) (top_bigrams rep)) \<and>
     (\<forall>d. distinct (map fst d) \<and> set d = set (trigram_freq a) \<longrightarrow>
        take 50 (sort_items d) = map (\<lambda>e. (trigram e, trigram_count e)) (top_trigrams rep))"
proof -
  let ?rep = "build_report (analyze_now env) a"
  have inv: "corpus_inv a"
    using analyze_files_inv [OF assms(3) corpus_inv_empty] .
  then have dist: "distinct (map fst (global_freq a))" "distinct (map fst (bigram_freq a))"
    "distinct (map fst (trigram_freq a))"
    by (simp_all add: corpus_inv_def)
  have w: "map (\<lambda>e. (word e, count e)) (top_100_words ?rep) = take 100 (sort_items (global_freq a))"
    by (simp add: build_report_def Let_def comp_def case_prod_unfold)
  have b: "map (\<lambda>e. (bigram e, bigram_count e)) (top_bigrams ?rep) = take 50 (sort_items (bigram_freq a))"
    by (simp add: build_report_def Let_def comp_def case_prod_unfold)
  have t: "map (\<lambda>e. (trigram e, trigram_count e)) (top_trigrams ?rep) = take 50 (sort_items (trigram_freq a))"
    by (simp add: build_report_def Let_def comp_def case_prod_unfold)
  have main: "analyze_main env = Some (Inr (0, ?rep))"
    using analyze_main_runs [OF assms(1)] assms(2,3) by (simp add: analyze_batch_def)
  have d1: "\<forall>d. distinct (map fst d) \<and> set d = set (global_freq a) \<longrightarrow>
      take 100 (sort_items d) = take 100 (sort_items (global_freq a))"
    using sort_items_deterministic [OF dist(1)] by simp
  have d2: "\<forall>d. distinct (map fst d) \<and> set d = set (bigram_freq a) \<longrightarrow>
      take 50 (sort_items d) = take 50 (sort_items (bigram_freq a))"
    using sort_items_deterministic [OF dist(2)] by simp
  have d3: "\<forall>d. distinct (map fst d) \<and> set d = set (trigram_freq a) \<longrightarrow>
      take 50 (sort_items d) = take 50 (sort_items (trigram_freq a))"
    using sort_items_deterministic [OF dist(3)] by simp
  show ?thesis
    by (rule exI [of _ ?rep], simp only: w b t main)
      (intro conjI refl is_top_k_take dist d1 d2 d3)
qed


lemma example_corpus_analyzed:
  "analyze_files (read_json example_analyze_env)
     (json_files [''page_2.json'', ''page_1.json'', ''page_3.json'']) empty_corpus
   = Inr example_corpus"
  by code_simp

theorem ranked_lists_witness:
  "process_done example_analyze_env 1 \<and>
   processed_dir example_analyze_env = Some [''page_2.json'', ''page_1.json'', ''page_3.json''] \<and>
   analyze_files (read_json example_analyze_env)
     (json_files [''page_2.json'', ''page_1.json'', ''page_3.json'']) empty_corpus
     = Inr example_corpus \<and>
   (\<exists>rep. analyze_main example_analyze_env = Some (Inr (0, rep)) \<and>
      is_top_k 100 (global_freq example_corpus)
        (map (\<lambda>e. (word e, count e)) (top_100_words rep)))"
proof -
  have a: "process_done example_analyze_env 1"
    by (simp add: example_analyze_env_def)
  have b: "processed_dir example_analyze_env = Some [''page_2.json'', ''page_1.json'', ''page_3.json'']"
    by (simp add: example_analyze_env_def)
  note c = example_corpus_analyzed
  from ranked_lists_of_the_report [OF a b c] a b c show ?thesis
    by blast
qed

section \<open>The entries of the word list\<close>




section \<open>Removal of script and style blocks\<close>

lemma lower_append: "lower (a @ b) = lower a @ lower b"
  by (simp add: lower_def)

lemma length_lower: "length (lower s) = length s"
  by (simp add: lower_def)

lemma lower_take: "lower (take n s) = take n (lower s)"
  by (simp add: lower_def take_map)

lemma lower_drop: "lower (drop n s) = drop n (lower s)"
  by (simp add: lower_def drop_map)

lemma take_eq_imp_length: "take (length p) s = p \<Longrightarrow> length p \<le> length s"
proof -
  assume "take (length p) s = p"
  then have "length (take (length p) s) = length p" by simp
  then show ?thesis by simp
qed

lemma find_str_bound: "find_str s p = Some k \<Longrightarrow> k + length p \<le> length s"
proof (induction s arbitrary: k)
  case Nil
  then show ?case by (simp split: if_splits)
next
  case (Cons c cs)
  show ?case
  proof (cases "take (length p) (c # cs) = p")
    case True
    from take_eq_imp_length [OF this] True Cons.prems show ?thesis by simp
  next
    case False
    with Cons.prems obtain j where "find_str cs p = Some j" and "k = Suc j"
      by auto
    with Cons.IH [of j] show ?thesis by simp
  qed
qed

lemma find_str_occurs: "find_str s p = Some k \<Longrightarrow> take (length p) (drop k s) = p"
proof (induction s arbitrary: k)
  case Nil
  then show ?case by (simp split: if_splits)
next
  case (Cons c cs)
  show ?case
  proof (cases "take (length p) (c # cs) = p")
    case True
    with Cons.prems show ?thesis by simp
  next
    case False
    with Cons.prems obtain j where "find_str cs p = Some j" and "k = Suc j"
      by auto
    with Cons.IH [of j] show ?thesis by simp
  qed
qed

lemma find_str_least:
  "find_str s p = Some k \<Longrightarrow> j < k \<Longrightarrow> take (length p) (drop j s) \<noteq> p"
proof (induction s arbitrary: k j)
  case Nil
  then show ?case by (simp split: if_splits)
next
  case (Cons c cs)
  show ?case
  proof (cases "take (length p) (c # cs) = p")
    case True
    with Cons.prems show ?thesis by simp
  next
    case False
    with Cons.prems obtain i where i: "find_str cs p = Some i" "k = Suc i"
      by auto
    show ?thesis
    proof (cases j)
      case 0
      with False show ?thesis by simp
    next
      case (Suc j')
      with Cons.prems i have "j' < i" by simp
      from Cons.IH [OF i(1) this] Suc show ?thesis by simp
    qed
  qed
qed

lemma find_str_append:
  "find_str s p = Some k \<Longrightarrow> find_str (s @ t) p = Some k"
proof (induction s arbitrary: k)
  case Nil
  then have "p = []" and "k = 0" by (simp_all split: if_splits)
  then show ?case by (cases t) simp_all
next
  case (Cons c cs)
  show ?case
  proof (cases "take (length p) (c # cs) = p")
    case True
    from take_eq_imp_length [OF this] have "length p \<le> length (c # cs)" .
    then have "take (length p) ((c # cs) @ t) = take (length p) (c # cs)"
      by (simp del: append_Cons take_Suc_Cons length_Cons)
    with True Cons.prems show ?thesis by simp
  next
    case False
    with Cons.prems obtain j where j: "find_str cs p = Some j" "k = Suc j"
      by auto
    from find_str_bound [OF j(1)] have "length p \<le> length (c # cs)" by simp
    then have "take (length p) ((c # cs) @ t) = take (length p) (c # cs)"
      by (simp del: append_Cons take_Suc_Cons length_Cons)
    with False have "take (length p) (c # cs @ t) \<noteq> p" by simp
    with Cons.IH [OF j(1)] j(2) show ?thesis by simp
  qed
qed

lemma find_str_take_None:
  "find_str s p = Some k \<Longrightarrow> p \<noteq> [] \<Longrightarrow> find_str (take k s) p = None"
proof (induction s arbitrary: k)
  case Nil
  then show ?case by (simp split: if_splits)
next
  case (Cons c cs)
  show ?case
  proof (cases "take (length p) (c # cs) = p")
    case True
    with Cons.prems show ?thesis by simp
  next
    case False
    with Cons.prems obtain j where j: "find_str cs p = Some j" "k = Suc j"
      by auto
    have "take (length p) (c # take j cs) \<noteq> p"
    proof
      assume eq: "take (length p) (c # take j cs) = p"
      from take_eq_imp_length [OF this] have "length p \<le> Suc j" by simp
      then have "take (length p) (take (Suc j) (c # cs)) = take (length p) (c # cs)"
        by (simp only: take_take min_absorb1)
      with eq have "take (length p) (c # cs) = p" by simp
      with False show False ..
    qed
    with Cons.IH [OF j(1) Cons.prems(2)] j(2) show ?thesis by simp
  qed
qed


lemma remove_tag_block_no_open:
  "find_str (lower html) (open_pat tag) = None \<Longrightarrow> remove_tag_block html tag = html"
  by (subst remove_tag_block.simps) simp

lemma remove_tag_block_block:
  assumes "lower opn = open_pat tag" and "lower cls = close_pat tag"
    and "find_str (lower (pre @ opn)) (open_pat tag) = Some (length pre)"
    and "find_str (lower (opn @ body @ cls)) (close_pat tag) = Some (length (opn @ body))"
  shows "remove_tag_block (pre @ opn @ body @ cls @ post) tag =
         remove_tag_block (pre @ '' '' @ post) tag"
proof -
  let ?html = "pre @ opn @ body @ cls @ post"
  have "lower ?html = lower (pre @ opn) @ lower (body @ cls @ post)"
    by (simp add: lower_append)
  then have start: "find_str (lower ?html) (open_pat tag) = Some (length pre)"
    using find_str_append [OF assms(3)] by simp
  have "drop (length pre) (lower ?html) = lower (opn @ body @ cls) @ lower post"
    by (simp add: lower_append length_lower)
  then have "find_str (drop (length pre) (lower ?html)) (close_pat tag) = Some (length (opn @ body))"
    using find_str_append [OF assms(4)] by simp
  then have e: "find_from (lower ?html) (close_pat tag) (length pre) =
      Some (length pre + length (opn @ body))"
    by (simp add: find_from_def length_lower)
  have len: "length (close_pat tag) = length cls"
    using assms(2) length_lower [of cls] by simp
  have "drop (length pre + length (opn @ body) + length cls) ?html = post"
    by simp
  with start e len show ?thesis
    by (subst remove_tag_block.simps) simp
qed

lemma remove_tag_block_truncates:
  assumes "lower opn = open_pat tag"
    and "find_str (lower (pre @ opn)) (open_pat tag) = Some (length pre)"
    and "find_str (lower (opn @ rest)) (close_pat tag) = None"
  shows "remove_tag_block (pre @ opn @ rest) tag = pre"
proof -
  let ?html = "pre @ opn @ rest"
  have "lower ?html = lower (pre @ opn) @ lower rest"
    by (simp add: lower_append)
  then have start: "find_str (lower ?html) (open_pat tag) = Some (length pre)"
    using find_str_append [OF assms(2)] by simp
  have "drop (length pre) (lower ?html) = lower (opn @ rest)"
    by (simp add: lower_append length_lower)
  then have e: "find_from (lower ?html) (close_pat tag) (length pre) = None"
    using assms(3) by (simp add: find_from_def length_lower)
  from start e show ?thesis
    by (subst remove_tag_block.simps) simp
qed

lemma remove_tag_block_leaves_no_open:
  "find_str (lower (remove_tag_block html tag)) (open_pat tag) = None"
proof (induction html tag rule: remove_tag_block.induct)
  case (1 html tag)
  show ?case
  proof (cases "find_str (lower html) (open_pat tag)")
    case None
    then show ?thesis by (subst remove_tag_block.simps) simp
  next
    case (Some start)
    show ?thesis
    proof (cases "find_from (lower html) (close_pat tag) start")
      case None
      have "open_pat tag \<noteq> []"
        by (simp add: open_pat_def)
      from find_str_take_None [OF Some this]
      have "find_str (lower (take start html)) (open_pat tag) = None"
        by (simp add: lower_take)
      with Some None show ?thesis
        by (subst remove_tag_block.simps) simp
    next
      case (Some e)
      from "1.IH" [OF \<open>find_str (lower html) (open_pat tag) = Some start\<close> Some]
      show ?thesis
        using \<open>find_str (lower html) (open_pat tag) = Some start\<close> Some
        by (subst remove_tag_block.simps) simp
    qed
  qed
qed

text \<open>
  Claim C7. \<open>remove_tag_block\<close>, which \<open>strip_html\<close> applies for \<open>script\<close> and then for
  \<open>style\<close>, looks for the opening and the closing tag in the lower-cased string, so
  in any letter case. A string with no opening tag is returned as it is. When \<open>opn\<close>
  is the first opening tag and \<open>cls\<close> the first closing tag from there on, the whole
  block from \<open>opn\<close> to \<open>cls\<close> is erased, one space is left in its place, and the
  removal goes on. When the first opening tag has no closing tag after it, the result
  is the string before that opening tag. In the result no opening tag is left.
\<close>

theorem remove_tag_block_erases_blocks:
  "(find_str (lower html) (open_pat tag) = None \<longrightarrow> remove_tag_block html tag = html) \<and>
   (html = pre @ opn @ body @ cls @ post \<and>
    lower opn = open_pat tag \<and> lower cls = close_pat tag \<and>
    find_str (lower (pre @ opn)) (open_pat tag) = Some (length pre) \<and>
    find_str (lower (opn @ body @ cls)) (close_pat tag) = Some (length (opn @ body)) \<longrightarrow>
    remove_tag_block html tag = remove_tag_block (pre @ '' '' @ post) tag) \<and>
   (html = pre' @ opn' @ rest \<and>
    lower opn' = open_pat tag \<and>
    find_str (lower (pre' @ opn')) (open_pat tag) = Some (length pre') \<and>
    find_str (lower (opn' @ rest)) (close_pat tag) = None \<longrightarrow>
    remove_tag_block html tag = pre') \<and>
   find_str (lower (remove_tag_block html tag)) (open_pat tag) = None"
  using remove_tag_block_no_open [of html tag]
    remove_tag_block_block [of opn tag cls pre body post]
    remove_tag_block_truncates [of opn' tag pre' rest]
    remove_tag_block_leaves_no_open [of html tag]
  by blast

theorem remove_tag_block_witness:
  "remove_tag_block ''a b'' ''script'' = ''a b'' \<and>
   remove_tag_block ''a<SCRIPT>x</Script>b'' ''script'' = ''a b'' \<and>
   remove_tag_block ''a<Style>x'' ''style'' = ''a''"
proof -
  have n: "find_str (lower ''a b'') (open_pat ''script'') = None"
    by code_simp
  have b: "''a<SCRIPT>x</Script>b'' = ''a'' @ ''<SCRIPT'' @ ''>x'' @ ''</Script>'' @ ''b'' \<and>
    lower ''<SCRIPT'' = open_pat ''script'' \<and> lower ''</Script>'' = close_pat ''script'' \<and>
    find_str (lower (''a'' @ ''<SCRIPT'')) (open_pat ''script'') = Some (length ''a'') \<and>
    find_str (lower (''<SCRIPT'' @ ''>x'' @ ''</Script>'')) (close_pat ''script'')
      = Some (length (''<SCRIPT'' @ ''>x''))"
    by code_simp
  have t: "''a<Style>x'' = ''a'' @ ''<Style'' @ ''>x'' \<and>
    lower ''<Style'' = open_pat ''style'' \<and>
    find_str (lower (''a'' @ ''<Style'')) (open_pat ''style'') = Some (length ''a'') \<and>
    find_str (lower (''<Style'' @ ''>x'')) (close_pat ''style'') = None"
    by code_simp
  have "remove_tag_block ''a b'' ''script'' = ''a b''"
    using remove_tag_block_erases_blocks [of "''a b''" "''script''"] n by blast
  moreover have "remove_tag_block ''a<SCRIPT>x</Script>b'' ''script''
      = remove_tag_block (''a'' @ '' '' @ ''b'') ''script''"
    using remove_tag_block_erases_blocks
      [of "''a<SCRIPT>x</Script>b''" "''script''" "''a''" "''<SCRIPT''" "''>x''" "''</Script>''" "''b''"]
      b by blast
  moreover have "remove_tag_block ''a<Style>x'' ''style'' = ''a''"
    using remove_tag_block_erases_blocks
      [of "''a<Style>x''" "''style''" _ _ _ _ _ "''a''" "''<Style''" "''>x''"] t by blast
  ultimately show ?thesis by simp
qed

section \<open>Stripping plain text\<close>

lemma is_space_lower_char: "is_space_char (lower_char c) = is_space_char c"
  by (auto simp: is_space_char_def lower_char_def Let_def)

lemma lower_char_space: "lower_char CHR '' '' = CHR '' ''"
  by code_simp

lemma space_is_space: "is_space_char CHR '' ''"
  by code_simp

lemma gt_not_space: "\<not> is_space_char CHR ''>''"
  by code_simp

lemma lower_dropWhile_space:
  "lower (dropWhile is_space_char s) = dropWhile is_space_char (lower s)"
  by (simp add: lower_def dropWhile_map comp_def is_space_lower_char)

lemma lower_sub_ws: "lower (sub_ws s) = sub_ws (lower s)"
proof (induction s rule: sub_ws.induct)
  case 1
  show ?case by (simp add: lower_def)
next
  case (2 c cs)
  show ?case
  proof (cases "is_space_char c")
    case True
    with 2 have "lower (sub_ws (dropWhile is_space_char cs)) = sub_ws (dropWhile is_space_char (lower cs))"
      by (simp add: lower_dropWhile_space)
    with True show ?thesis
      using lower_dropWhile_space [of cs]
      by (simp add: lower_def is_space_lower_char lower_char_space)
  next
    case False
    with 2 show ?thesis
      by (simp add: lower_def is_space_lower_char)
  qed
qed

lemma lower_strip: "lower (strip s) = strip (lower s)"
proof -
  have "lower (rev x) = rev (lower x)" for x
    by (simp add: lower_def rev_map)
  then show ?thesis
    by (simp add: strip_def lower_dropWhile_space)
qed


lemma strip_infix: "\<exists>a b. s = a @ strip s @ b"
proof -
  let ?y = "dropWhile is_space_char s"
  have "strip s = rev (drop (length (takeWhile is_space_char (rev ?y))) (rev ?y))"
    by (simp only: strip_def dropWhile_eq_drop [symmetric])
  also have "\<dots> = take (length ?y - length (takeWhile is_space_char (rev ?y))) ?y"
    by (simp add: rev_drop)
  finally obtain n where n: "strip s = take n ?y" ..
  have "s = takeWhile is_space_char s @ take n ?y @ drop n ?y"
    by simp
  with n show ?thesis by metis
qed

lemma set_sub_ws: "set (sub_ws s) \<subseteq> insert CHR '' '' (set s)"
proof (induction s rule: sub_ws.induct)
  case 1
  show ?case by simp
next
  case (2 c cs)
  have "set (dropWhile is_space_char cs) \<subseteq> set cs"
    by (rule set_dropWhileD [THEN subsetI])
  with 2 show ?case by (cases "is_space_char c") auto
qed

lemma has_tag_append_right: "has_tag x \<Longrightarrow> has_tag (x @ b)"
proof (induction x)
  case Nil
  then show ?case by simp
next
  case (Cons c cs)
  show ?case
  proof (cases "has_tag cs")
    case True
    with Cons.IH show ?thesis by simp
  next
    case False
    with Cons.prems obtain d ds where "c = CHR ''<''" "cs = d # ds" "d \<noteq> CHR ''>''"
      "CHR ''>'' \<in> set ds"
      by (cases cs) auto
    then show ?thesis by simp
  qed
qed

lemma has_tag_append_left: "has_tag x \<Longrightarrow> has_tag (a @ x)"
  by (induction a) auto

lemma has_tag_strip: "has_tag (strip s) \<Longrightarrow> has_tag s"
proof -
  assume h: "has_tag (strip s)"
  obtain a b where "s = a @ strip s @ b"
    using strip_infix by blast
  moreover have "has_tag (a @ strip s @ b)"
    using h by (intro has_tag_append_left has_tag_append_right)
  ultimately show ?thesis by simp
qed

lemma has_tag_sub_ws: "has_tag (sub_ws s) \<Longrightarrow> has_tag s"
proof (induction s rule: sub_ws.induct)
  case 1
  then show ?case by simp
next
  case (2 c cs)
  show ?case
  proof (cases "is_space_char c")
    case True
    with "2.prems" have "has_tag (sub_ws (dropWhile is_space_char cs))"
      by simp
    with "2.IH"(1) True have "has_tag (dropWhile is_space_char cs)"
      by simp
    then have "has_tag (takeWhile is_space_char cs @ dropWhile is_space_char cs)"
      by (rule has_tag_append_left)
    then show ?thesis by simp
  next
    case False
    with "2.prems" have alt: "(c = CHR ''<'' \<and>
        (case sub_ws cs of [] \<Rightarrow> False | d # ds \<Rightarrow> d \<noteq> CHR ''>'' \<and> CHR ''>'' \<in> set ds)) \<or>
        has_tag (sub_ws cs)"
      by simp
    from alt show ?thesis
    proof
      assume "has_tag (sub_ws cs)"
      with "2.IH"(2) False show ?thesis by simp
    next
      assume lt: "c = CHR ''<'' \<and>
        (case sub_ws cs of [] \<Rightarrow> False | d # ds \<Rightarrow> d \<noteq> CHR ''>'' \<and> CHR ''>'' \<in> set ds)"
      then obtain d ds where dds: "sub_ws cs = d # ds" "d \<noteq> CHR ''>''" "CHR ''>'' \<in> set ds"
        by (auto split: list.splits)
      then obtain e es where cs: "cs = e # es"
        by (cases cs) auto
      show ?thesis
      proof (cases "is_space_char e")
        case True
        with dds cs have "ds = sub_ws (dropWhile is_space_char es)"
          by simp
        with dds(3) have "CHR ''>'' \<in> insert CHR '' '' (set (dropWhile is_space_char es))"
          using set_sub_ws by blast
        then have "CHR ''>'' \<in> set es"
          by (auto dest: set_dropWhileD)
        moreover from True have "e \<noteq> CHR ''>''"
          using gt_not_space by auto
        ultimately show ?thesis using lt cs by simp
      next
        case False
        with dds cs have "d = e" and "ds = sub_ws es"
          by simp_all
        with dds(3) have "CHR ''>'' \<in> insert CHR '' '' (set es)"
          using set_sub_ws by blast
        then have "CHR ''>'' \<in> set es" by simp
        with \<open>d = e\<close> dds(2) lt cs show ?thesis by simp
      qed
    qed
  qed
qed

lemma sub_tags_no_tag: "\<not> has_tag s \<Longrightarrow> sub_tags s = s"
proof (induction s)
  case Nil
  show ?case by simp
next
  case (Cons c cs)
  from Cons.prems have "\<not> has_tag cs"
    by simp
  with Cons.IH have ih: "sub_tags cs = cs" .
  have "sub_tags (c # cs) = c # sub_tags cs"
  proof (cases "c = CHR ''<''")
    case False
    then show ?thesis by (subst sub_tags.simps) simp
  next
    case True
    show ?thesis
    proof (cases cs)
      case Nil
      with True show ?thesis by (subst sub_tags.simps) simp
    next
      case (Cons d ds)
      show ?thesis
      proof (cases "d = CHR ''>''")
        case True
        with \<open>c = CHR ''<''\<close> Cons show ?thesis
          by (subst sub_tags.simps) (simp del: sub_tags.simps)
      next
        case False
        with Cons.prems \<open>c = CHR ''<''\<close> Cons have "CHR ''>'' \<notin> set ds"
          by simp
        then have "dropWhile (\<lambda>x. x \<noteq> CHR ''>'') ds = []"
          by (auto simp: dropWhile_eq_Nil_conv)
        with \<open>c = CHR ''<''\<close> Cons False show ?thesis
          by (subst sub_tags.simps) (simp del: sub_tags.simps dropWhile_eq_Nil_conv)
      qed
    qed
  qed
  with ih show ?case by simp
qed


lemma sub_tags_Cons_cases:
  "sub_tags (c # cs) = c # sub_tags cs \<or>
   (\<exists>d ds g rest. c = CHR ''<'' \<and> cs = d # ds \<and> d \<noteq> CHR ''>'' \<and>
      dropWhile (\<lambda>x. x \<noteq> CHR ''>'') ds = g # rest \<and>
      sub_tags (c # cs) = CHR '' '' # sub_tags rest)"
proof (cases "c = CHR ''<''")
  case False
  then show ?thesis by (subst sub_tags.simps) simp
next
  case True
  show ?thesis
  proof (cases cs)
    case Nil
    with True show ?thesis by (subst sub_tags.simps) simp
  next
    case (Cons d ds)
    show ?thesis
    proof (cases "d = CHR ''>''")
      case True
      with \<open>c = CHR ''<''\<close> Cons show ?thesis
        by (subst sub_tags.simps) (simp del: sub_tags.simps)
    next
      case False
      show ?thesis
      proof (cases "dropWhile (\<lambda>x. x \<noteq> CHR ''>'') ds")
        case Nil
        with \<open>c = CHR ''<''\<close> Cons False show ?thesis
          by (subst sub_tags.simps) (simp del: sub_tags.simps dropWhile_eq_Nil_conv)
      next
        case (Cons g rest)
        with \<open>c = CHR ''<''\<close> \<open>cs = d # ds\<close> False
        have "sub_tags (c # cs) = CHR '' '' # sub_tags rest"
          by (subst sub_tags.simps) (simp del: sub_tags.simps)
        with \<open>c = CHR ''<''\<close> \<open>cs = d # ds\<close> False Cons show ?thesis
          by blast
      qed
    qed
  qed
qed

lemma length_sub_tags_le: "length (sub_tags s) \<le> length s"
proof (induction s rule: length_induct)
  case (1 s)
  show ?case
  proof (cases s)
    case Nil
    then show ?thesis by simp
  next
    case (Cons c cs)
    from sub_tags_Cons_cases [of c cs] show ?thesis
    proof (elim disjE exE conjE)
      assume "sub_tags (c # cs) = c # sub_tags cs"
      moreover from 1 Cons have "length (sub_tags cs) \<le> length cs" by simp
      ultimately show ?thesis using Cons by simp
    next
      fix d ds g rest
      assume cs: "cs = d # ds" and dw: "dropWhile (\<lambda>x. x \<noteq> CHR ''>'') ds = g # rest"
        and st: "sub_tags (c # cs) = CHR '' '' # sub_tags rest"
      have "length (dropWhile (\<lambda>x. x \<noteq> CHR ''>'') ds) \<le> length ds"
        by (rule length_dropWhile_le)
      with dw have lt: "length rest < length ds" by simp
      with 1 Cons cs have "length (sub_tags rest) \<le> length rest" by simp
      with lt st Cons cs show ?thesis by simp
    qed
  qed
qed

lemma has_tag_shrinks: "has_tag s \<Longrightarrow> length (sub_tags s) < length s"
proof (induction s)
  case Nil
  then show ?case by simp
next
  case (Cons c cs)
  from sub_tags_Cons_cases [of c cs] show ?case
  proof (elim disjE exE conjE)
    fix d ds g rest
    assume cs: "cs = d # ds" and dw: "dropWhile (\<lambda>x. x \<noteq> CHR ''>'') ds = g # rest"
      and st: "sub_tags (c # cs) = CHR '' '' # sub_tags rest"
    have "length (dropWhile (\<lambda>x. x \<noteq> CHR ''>'') ds) \<le> length ds"
      by (rule length_dropWhile_le)
    with dw have "length rest < length ds" by simp
    moreover have "length (sub_tags rest) \<le> length rest"
      by (rule length_sub_tags_le)
    ultimately show ?thesis using st cs by simp
  next
    assume same: "sub_tags (c # cs) = c # sub_tags cs"
    have "has_tag cs"
    proof (rule ccontr)
      assume "\<not> has_tag cs"
      with Cons.prems obtain d ds where c: "c = CHR ''<''" and cs: "cs = d # ds"
        and d: "d \<noteq> CHR ''>''" and gt: "CHR ''>'' \<in> set ds"
        by (cases cs) auto
      from gt obtain g rest where dw: "dropWhile (\<lambda>x. x \<noteq> CHR ''>'') ds = g # rest"
        by (cases "dropWhile (\<lambda>x. x \<noteq> CHR ''>'') ds") (auto simp: dropWhile_eq_Nil_conv)
      from c cs d dw have "sub_tags (c # cs) = CHR '' '' # sub_tags rest"
        by (subst sub_tags.simps) (simp del: sub_tags.simps)
      with same c show False by simp
    qed
    with Cons.IH have "length (sub_tags cs) < length cs" .
    with same show ?thesis by simp
  qed
qed

text \<open>\<open>has_tag\<close> holds of exactly the strings that \<open>TAG_RE.sub\<close> changes.\<close>

lemma has_tag_iff_sub_tags_changes: "has_tag s \<longleftrightarrow> sub_tags s \<noteq> s"
  using has_tag_shrinks [of s] sub_tags_no_tag [of s] by auto

lemma take_eq_iff_prefix: "take (length p) s = p \<longleftrightarrow> (\<exists>b. s = p @ b)"
proof
  assume "take (length p) s = p"
  then have "s = p @ drop (length p) s"
    by (metis append_take_drop_id)
  then show "\<exists>b. s = p @ b" ..
next
  assume "\<exists>b. s = p @ b"
  then show "take (length p) s = p" by auto
qed

lemma find_str_None_iff: "find_str s p = None \<longleftrightarrow> \<not> (\<exists>a b. s = a @ p @ b)"
proof (induction s)
  case Nil
  show ?case by simp
next
  case (Cons c cs)
  have "(\<exists>a b. c # cs = a @ p @ b) \<longleftrightarrow> (\<exists>b. c # cs = p @ b) \<or> (\<exists>a b. cs = a @ p @ b)"
  proof
    assume "\<exists>a b. c # cs = a @ p @ b"
    then obtain a b where ab: "c # cs = a @ p @ b" by blast
    show "(\<exists>b. c # cs = p @ b) \<or> (\<exists>a b. cs = a @ p @ b)"
    proof (cases a)
      case Nil
      with ab show ?thesis by auto
    next
      case (Cons x a')
      with ab have "cs = a' @ p @ b" by simp
      then show ?thesis by blast
    qed
  next
    assume "(\<exists>b. c # cs = p @ b) \<or> (\<exists>a b. cs = a @ p @ b)"
    then show "\<exists>a b. c # cs = a @ p @ b"
    proof
      assume "\<exists>b. c # cs = p @ b"
      then obtain b where "c # cs = [] @ p @ b" by auto
      then show ?thesis by blast
    next
      assume "\<exists>a b. cs = a @ p @ b"
      then obtain a b where "c # cs = (c # a) @ p @ b" by auto
      then show ?thesis by blast
    qed
  qed
  then have ex: "(\<not> (\<exists>a b. c # cs = a @ p @ b)) \<longleftrightarrow>
      \<not> (\<exists>b. c # cs = p @ b) \<and> \<not> (\<exists>a b. cs = a @ p @ b)"
    by (simp only: de_Morgan_disj)
  have fs: "find_str (c # cs) p = None \<longleftrightarrow>
      take (length p) (c # cs) \<noteq> p \<and> find_str cs p = None"
    by simp
  have tk: "take (length p) (c # cs) \<noteq> p \<longleftrightarrow> \<not> (\<exists>b. c # cs = p @ b)"
    by (simp only: take_eq_iff_prefix)
  show ?case
    by (simp only: fs ex tk Cons.IH)
qed

lemma find_str_NoneD: "find_str s p = None \<Longrightarrow> s \<noteq> a @ p @ b"
proof
  assume n: "find_str s p = None" and e: "s = a @ p @ b"
  from n have "\<not> (\<exists>a b. s = a @ p @ b)"
    by (rule iffD1 [OF find_str_None_iff])
  moreover from e have "\<exists>a b. s = a @ p @ b"
    by (intro exI)
  ultimately show False by (rule notE)
qed

lemma find_str_SomeE:
  assumes "find_str s p \<noteq> None"
  shows "\<exists>a b. s = a @ p @ b"
proof (rule ccontr)
  assume "\<not> (\<exists>a b. s = a @ p @ b)"
  then have "find_str s p = None"
    by (rule iffD2 [OF find_str_None_iff])
  with assms show False by (rule notE)
qed

lemma sub_ws_prefix:
  assumes "\<forall>c \<in> set p. \<not> is_space_char c"
  shows "sub_ws s = p @ b \<Longrightarrow> \<exists>b'. s = p @ b'"
  using assms
proof (induction p arbitrary: s b)
  case Nil
  show ?case by simp
next
  case (Cons x p)
  from Cons.prems obtain c cs where s: "s = c # cs"
    by (cases s) auto
  have nsp: "\<not> is_space_char c"
  proof
    assume "is_space_char c"
    with Cons.prems(1) s have "x = CHR '' ''" by simp
    with Cons.prems(2) space_is_space show False by simp
  qed
  with Cons.prems(1) s have "c = x" and "sub_ws cs = p @ b"
    by simp_all
  moreover from Cons.prems(2) have "\<forall>c \<in> set p. \<not> is_space_char c"
    by simp
  ultimately obtain b' where "cs = p @ b'"
    using Cons.IH by blast
  with s \<open>c = x\<close> show ?case by simp
qed

lemma sub_ws_occurs:
  assumes "p \<noteq> []" and "\<forall>c \<in> set p. \<not> is_space_char c"
  shows "sub_ws s = a @ p @ b \<Longrightarrow> \<exists>a' b'. s = a' @ p @ b'"
proof (induction s arbitrary: a rule: sub_ws.induct)
  case 1
  with assms(1) show ?case by simp
next
  case (2 c cs)
  show ?case
  proof (cases "is_space_char c")
    case True
    with "2.prems" have eq: "CHR '' '' # sub_ws (dropWhile is_space_char cs) = a @ p @ b"
      by simp
    show ?thesis
    proof (cases a)
      case Nil
      with eq assms(1) have "CHR '' '' \<in> set p"
        by (cases p) auto
      with assms(2) space_is_space show ?thesis by blast
    next
      case (Cons x a2)
      with eq have "sub_ws (dropWhile is_space_char cs) = a2 @ p @ b"
        by simp
      from "2.IH"(1) [OF True this] obtain a' b'
        where "dropWhile is_space_char cs = a' @ p @ b'" by blast
      then have "c # cs = (c # takeWhile is_space_char cs @ a') @ p @ b'"
        by (metis append_Cons append_assoc takeWhile_dropWhile_id)
      then show ?thesis by blast
    qed
  next
    case False
    with "2.prems" have eq: "c # sub_ws cs = a @ p @ b"
      by simp
    show ?thesis
    proof (cases a)
      case Nil
      with "2.prems" have "sub_ws (c # cs) = p @ b" by simp
      from sub_ws_prefix [OF assms(2) this] obtain b' where "c # cs = [] @ p @ b'"
        by auto
      then show ?thesis by blast
    next
      case (Cons x a2)
      with eq have "sub_ws cs = a2 @ p @ b" by simp
      from "2.IH"(2) [OF False this] obtain a' b' where "cs = a' @ p @ b'" by blast
      then have "c # cs = (c # a') @ p @ b'" by simp
      then show ?thesis by blast
    qed
  qed
qed

lemma find_str_None_sub_ws_strip:
  assumes "find_str s p = None" and "p \<noteq> []" and "\<forall>c \<in> set p. \<not> is_space_char c"
  shows "find_str (strip (sub_ws s)) p = None"
proof (rule ccontr)
  assume "find_str (strip (sub_ws s)) p \<noteq> None"
  from find_str_SomeE [OF this] obtain a b where ab: "strip (sub_ws s) = a @ p @ b"
    by (elim exE)
  from strip_infix [of "sub_ws s"] obtain u v where uv: "sub_ws s = u @ strip (sub_ws s) @ v"
    by (elim exE)
  have "sub_ws s = (u @ a) @ p @ (b @ v)"
    by (subst uv, subst ab) simp
  from sub_ws_occurs [OF assms(2,3) this] obtain a' b' where "s = a' @ p @ b'"
    by (elim exE)
  with find_str_NoneD [OF assms(1)] show False
    by (rule notE)
qed


lemma strip_take: "\<exists>n. strip s = take n (dropWhile is_space_char s)"
proof -
  let ?y = "dropWhile is_space_char s"
  have "strip s = rev (drop (length (takeWhile is_space_char (rev ?y))) (rev ?y))"
    by (simp only: strip_def dropWhile_eq_drop [symmetric])
  also have "\<dots> = take (length ?y - length (takeWhile is_space_char (rev ?y))) ?y"
    by (simp add: rev_drop)
  finally show ?thesis ..
qed

lemma collapsed_Cons: "\<not> is_space_char c \<Longrightarrow> collapsed cs \<Longrightarrow> collapsed (c # cs)"
  by (cases cs) simp_all

lemma collapsed_tl: "collapsed (c # cs) \<Longrightarrow> collapsed cs"
  by (cases cs) simp_all

lemma collapsed_sub_ws: "collapsed (sub_ws s)"
proof (induction s rule: sub_ws.induct)
  case 1
  show ?case by simp
next
  case (2 c cs)
  show ?case
  proof (cases "is_space_char c")
    case False
    with 2 show ?thesis by (simp add: collapsed_Cons)
  next
    case True
    with 2 have ih: "collapsed (sub_ws (dropWhile is_space_char cs))"
      by simp
    show ?thesis
    proof (cases "dropWhile is_space_char cs")
      case Nil
      with True show ?thesis by (simp del: dropWhile_eq_Nil_conv)
    next
      case (Cons e es)
      then have "\<not> is_space_char e"
        using hd_dropWhile [of is_space_char cs] by auto
      then have "sub_ws (e # es) = e # sub_ws es"
        by simp
      with ih Cons True \<open>\<not> is_space_char e\<close> show ?thesis by simp
    qed
  qed
qed

lemma collapsed_fixed: "collapsed x \<Longrightarrow> sub_ws x = x"
proof (induction x rule: collapsed.induct)
  case 1
  show ?case by simp
next
  case (2 c)
  then show ?case by simp
next
  case (3 c d r)
  then have ih: "sub_ws (d # r) = d # r"
    by simp
  show ?case
  proof (cases "is_space_char c")
    case True
    with "3.prems" have "c = CHR '' ''" and "\<not> is_space_char d"
      by simp_all
    then have "sub_ws (c # d # r) = CHR '' '' # sub_ws (d # r)"
      using True by (subst sub_ws.simps) (simp del: sub_ws.simps)
    with ih \<open>c = CHR '' ''\<close> show ?thesis by (simp del: sub_ws.simps)
  next
    case False
    then have "sub_ws (c # d # r) = c # sub_ws (d # r)"
      by (subst sub_ws.simps) (simp del: sub_ws.simps)
    with ih show ?thesis by (simp del: sub_ws.simps)
  qed
qed

lemma collapsed_take: "collapsed x \<Longrightarrow> collapsed (take n x)"
proof (induction x arbitrary: n rule: collapsed.induct)
  case 1
  show ?case by simp
next
  case (2 c)
  then show ?case by (cases n) simp_all
next
  case (3 c d r)
  show ?case
  proof (cases n)
    case 0
    then show ?thesis by simp
  next
    case (Suc m)
    from "3.prems" have "collapsed (d # r)" by simp
    from "3.IH" [OF this, of m] have ih: "collapsed (take m (d # r))" .
    show ?thesis
    proof (cases m)
      case 0
      with Suc "3.prems" show ?thesis by simp
    next
      case (Suc k)
      with ih have "collapsed (d # take k r)" by simp
      with "3.prems" \<open>n = Suc m\<close> Suc show ?thesis by simp
    qed
  qed
qed

lemma collapsed_dropWhile: "collapsed x \<Longrightarrow> collapsed (dropWhile P x)"
proof (induction x)
  case Nil
  show ?case by simp
next
  case (Cons c cs)
  from Cons.prems have "collapsed cs" by (rule collapsed_tl)
  with Cons show ?case by simp
qed

lemma collapsed_strip_sub_ws: "collapsed (strip (sub_ws s))"
proof -
  obtain n where "strip (sub_ws s) = take n (dropWhile is_space_char (sub_ws s))"
    using strip_take by blast
  then show ?thesis
    by (simp only: collapsed_take collapsed_dropWhile collapsed_sub_ws)
qed

lemma strip_strip: "strip (strip s) = strip s"
proof -
  let ?y = "dropWhile is_space_char s"
  obtain n where n: "strip s = take n ?y"
    using strip_take by blast
  have "dropWhile is_space_char (take n ?y) = take n ?y"
  proof (cases "take n ?y")
    case Nil
    then show ?thesis by (simp only: dropWhile.simps)
  next
    case (Cons e es)
    then obtain f fs where y: "?y = f # fs"
      by (cases ?y) auto
    then have "\<not> is_space_char f"
      using hd_dropWhile [of is_space_char s] by auto
    moreover from Cons y have "e = f"
      by (cases n) simp_all
    ultimately show ?thesis using Cons by simp
  qed
  with n have "dropWhile is_space_char (strip s) = strip s"
    by simp
  then have "strip (strip s) = rev (dropWhile is_space_char (rev (strip s)))"
    by (simp add: strip_def [of "strip s"])
  also have "rev (strip s) = dropWhile is_space_char (rev ?y)"
    by (simp add: strip_def)
  also have "rev (dropWhile is_space_char (dropWhile is_space_char (rev ?y))) = strip s"
    by (simp add: strip_def)
  finally show ?thesis .
qed


lemma open_pat_no_space:
  "open_pat ''script'' \<noteq> [] \<and> (\<forall>c \<in> set (open_pat ''script''). \<not> is_space_char c)"
  "open_pat ''style'' \<noteq> [] \<and> (\<forall>c \<in> set (open_pat ''style''). \<not> is_space_char c)"
  by code_simp+

lemma strip_html_plain:
  assumes "plain_text s"
  shows "fst (strip_html s) = strip (sub_ws s)"
proof -
  from assms have "remove_tag_block s ''script'' = s" and "remove_tag_block s ''style'' = s"
    and "sub_tags s = s"
    by (simp_all add: plain_text_def remove_tag_block_no_open sub_tags_no_tag)
  then show ?thesis
    by (simp add: strip_html_def Let_def)
qed

lemma plain_text_strip_sub_ws:
  assumes "plain_text s"
  shows "plain_text (strip (sub_ws s))"
proof -
  from assms have "\<not> has_tag s"
    by (simp add: plain_text_def)
  then have tag: "\<not> has_tag (strip (sub_ws s))"
    using has_tag_strip has_tag_sub_ws by blast
  have low: "lower (strip (sub_ws s)) = strip (sub_ws (lower s))"
    by (simp only: lower_strip lower_sub_ws)
  from assms have "find_str (lower s) (open_pat ''script'') = None"
    by (simp add: plain_text_def)
  then have "find_str (strip (sub_ws (lower s))) (open_pat ''script'') = None"
    using open_pat_no_space(1) by (intro find_str_None_sub_ws_strip) simp_all
  then have sc: "find_str (lower (strip (sub_ws s))) (open_pat ''script'') = None"
    by (simp only: low)
  from assms have "find_str (lower s) (open_pat ''style'') = None"
    by (simp add: plain_text_def)
  then have "find_str (strip (sub_ws (lower s))) (open_pat ''style'') = None"
    using open_pat_no_space(2) by (intro find_str_None_sub_ws_strip) simp_all
  then have st: "find_str (lower (strip (sub_ws s))) (open_pat ''style'') = None"
    by (simp only: low)
  from tag sc st show ?thesis
    by (simp only: plain_text_def simp_thms)
qed

text \<open>
  Claim C8. A text with no markup tag is one in which nothing matches the tag pattern
  and which has no opening \<open>script\<close> or \<open>style\<close> tag. On such a text \<open>strip_html\<close>
  returns the text with its runs of white space collapsed to single spaces and
  trimmed, and stripping that result again returns it unchanged.
\<close>

theorem strip_html_plain_text_idempotent:
  assumes "plain_text s"
  shows "fst (strip_html s) = strip (sub_ws s) \<and>
         fst (strip_html (fst (strip_html s))) = fst (strip_html s)"
proof -
  let ?t = "strip (sub_ws s)"
  have once: "fst (strip_html s) = ?t"
    using assms by (rule strip_html_plain)
  have "fst (strip_html ?t) = strip (sub_ws ?t)"
    using plain_text_strip_sub_ws [OF assms] by (rule strip_html_plain)
  also have "sub_ws ?t = ?t"
    using collapsed_strip_sub_ws by (rule collapsed_fixed)
  also have "strip ?t = ?t"
    by (rule strip_strip)
  finally have "fst (strip_html ?t) = ?t" .
  with once show ?thesis by simp
qed

theorem strip_html_plain_text_witness:
  "plain_text ''  Hello   world < 5 '' \<and>
   fst (strip_html ''  Hello   world < 5 '') = ''Hello world < 5'' \<and>
   fst (strip_html ''Hello world < 5'') = ''Hello world < 5''"
proof -
  have p: "plain_text ''  Hello   world < 5 ''"
    by code_simp
  have n: "strip (sub_ws ''  Hello   world < 5 '') = ''Hello world < 5''"
    by code_simp
  note w = strip_html_plain_text_idempotent [OF p]
  from w [THEN conjunct1] n
  have a: "fst (strip_html ''  Hello   world < 5 '') = ''Hello world < 5''"
    by (rule trans)
  from w [THEN conjunct2]
  have "fst (strip_html ''Hello world < 5'') = ''Hello world < 5''"
    unfolding a .
  with p a show ?thesis
    by (intro conjI)
qed

end
